theory Spec2Isabelle
  imports Main "HOL-Library.Sublist"
begin

section \<open>The converter\<close>

text \<open>
  The functions of \<^verbatim>\<open>src/converter.js\<close>, one definition for each of them and under its name.

  \<^item> A JavaScript string is a list of \<^typ>\<open>char\<close>, one element for each code unit below 256;
    code units above that, among them the line separators U+2028 and U+2029, have no
    counterpart.
  \<^item> An object is the list of its own enumerable properties in the order in which
    \<^verbatim>\<open>Object.entries\<close> yields them.  The objects the converter builds are written to with
    \<open>assign\<close> and \<open>put\<close>, which keep that order and the uniqueness of the keys.  The
    argument of \<open>convertTranslations\<close> is an object, given by the list of its entries; a
    file whose top level is a list, a string, a number or null is not covered.
  \<^item> \<^verbatim>\<open>Object.prototype\<close> is the one object that the converter shares between calls and may
    write to.  The enumerable properties it has gained are the state \<open>proto\<close>, which every
    function takes and returns.
  \<^item> A thrown TypeError is the result \<open>Inl TypeError\<close>.  The converter catches nothing.
    Exhaustion of the call stack by a deeply nested tree is not covered.
  \<^item> The payload of a number is a type parameter, and \<open>ns\<close> renders it as
    \<open>Number::toString\<close> does.
\<close>

subsection \<open>Text rewriting\<close>

text \<open>
  A JavaScript string is modelled as a list of \<^typ>\<open>char\<close>.  The regular expressions
  of \<^verbatim>\<open>src/converter.js\<close> only compare code units with a few ASCII characters, so each
  of them is written out as the scanner it denotes.
\<close>

definition matchInterpolation :: "string \<Rightarrow> (string \<times> string) option" where
  "matchInterpolation s =
     (case s of
        a # b # t \<Rightarrow>
          if a = CHR ''{'' \<and> b = CHR ''{'' then
            (let content = takeWhile (\<lambda>c. c \<noteq> CHR ''}'') t;
                 after = dropWhile (\<lambda>c. c \<noteq> CHR ''}'') t
             in if content = [] then None
                else (case after of
                        x # y # rest \<Rightarrow>
                          if x = CHR ''}'' \<and> y = CHR ''}'' then Some (content, rest) else None
                      | _ \<Rightarrow> None))
          else None
      | _ \<Rightarrow> None)"

lemma matchInterpolation_shorter:
  "matchInterpolation s = Some (content, rest) \<Longrightarrow> length rest < length s"
proof -
  assume m: "matchInterpolation s = Some (content, rest)"
  then obtain t where s: "s = CHR ''{'' # CHR ''{'' # t"
    by (auto simp: matchInterpolation_def split: list.splits if_splits)
  from m s have "dropWhile (\<lambda>c. c \<noteq> CHR ''}'') t = CHR ''}'' # CHR ''}'' # rest"
    by (auto simp: matchInterpolation_def Let_def split: list.splits if_splits)
  then have "length rest < length (dropWhile (\<lambda>c. c \<noteq> CHR ''}'') t)" by simp
  also have "\<dots> \<le> length t" by (rule length_dropWhile_le)
  finally show ?thesis using s by simp
qed

function convertInterpolation :: "string \<Rightarrow> string" where
  "convertInterpolation [] = []"
| "convertInterpolation (c # cs) =
     (case matchInterpolation (c # cs) of
        Some (content, rest) \<Rightarrow> ''{'' @ content @ ''}'' @ convertInterpolation rest
      | None \<Rightarrow> c # convertInterpolation cs)"
  by pat_completeness auto
termination
  by (relation "measure length") (auto dest: matchInterpolation_shorter)

definition matchNesting :: "string \<Rightarrow> (string \<times> string) option" where
  "matchNesting s =
     (case s of
        a # b # c # t \<Rightarrow>
          if a = CHR ''$'' \<and> b = CHR ''t'' \<and> c = CHR ''('' then
            (let key = takeWhile (\<lambda>c. c \<noteq> CHR '')'') t;
                 after = dropWhile (\<lambda>c. c \<noteq> CHR '')'') t
             in if key = [] then None
                else (case after of
                        x # rest \<Rightarrow> if x = CHR '')'' then Some (key, rest) else None
                      | _ \<Rightarrow> None))
          else None
      | _ \<Rightarrow> None)"

lemma matchNesting_shorter:
  "matchNesting s = Some (key, rest) \<Longrightarrow> length rest < length s"
proof -
  assume m: "matchNesting s = Some (key, rest)"
  then obtain t where s: "s = CHR ''$'' # CHR ''t'' # CHR ''('' # t"
    by (auto simp: matchNesting_def split: list.splits if_splits)
  from m s have "dropWhile (\<lambda>c. c \<noteq> CHR '')'') t = CHR '')'' # rest"
    by (auto simp: matchNesting_def Let_def split: list.splits if_splits)
  then have "length rest < length (dropWhile (\<lambda>c. c \<noteq> CHR '')'') t)" by simp
  also have "\<dots> \<le> length t" by (rule length_dropWhile_le)
  finally show ?thesis using s by simp
qed

function convertNesting :: "string \<Rightarrow> string" where
  "convertNesting [] = []"
| "convertNesting (c # cs) =
     (case matchNesting (c # cs) of
        Some (key, rest) \<Rightarrow> ''[REF:'' @ key @ '']'' @ convertNesting rest
      | None \<Rightarrow> c # convertNesting cs)"
  by pat_completeness auto
termination
  by (relation "measure length") (auto dest: matchNesting_shorter)

subsection \<open>Plural keys\<close>

definition pluralForms :: "string list" where
  "pluralForms = [''zero'', ''one'', ''two'', ''few'', ''many'', ''other'']"

definition lineTerminator :: "char \<Rightarrow> bool" where
  "lineTerminator c = (c = CHR 0x0A \<or> c = CHR 0x0D)"

definition parsePluralKey :: "string \<Rightarrow> (string \<times> string) option" where
  "parsePluralKey key =
     (let form = rev (takeWhile (\<lambda>c. c \<noteq> CHR ''_'') (rev key));
          front = dropWhile (\<lambda>c. c \<noteq> CHR ''_'') (rev key)
      in case front of
           [] \<Rightarrow> None
         | u # b \<Rightarrow>
             if form \<in> set pluralForms \<and> b \<noteq> [] \<and> \<not> list_ex lineTerminator b
             then Some (rev b, form) else None)"

subsection \<open>Translation trees and JavaScript objects\<close>

text \<open>
  A parsed translation file.  The payload of a number is left abstract (\<open>'n\<close>); the only
  thing the converter can observe of a number is its decimal rendering \<open>Number::toString\<close>,
  which every function below takes as the parameter \<open>ns\<close>.  An object is the list of its own
  enumerable properties in the order \<^verbatim>\<open>Object.entries\<close> yields them.
\<close>

datatype 'n json =
    JString string
  | JNumber 'n
  | JBool bool
  | JNull
  | JArray "'n json list"
  | JObject "(string \<times> 'n json) list"

type_synonym 'v props = "(string \<times> 'v) list"

datatype error = TypeError

text \<open>
  Property order.  Own properties whose name is an array index (the canonical decimal form
  of a number below \<open>2\<^sup>3\<^sup>2 - 1\<close>) are enumerated first, in ascending numeric order; all
  other names follow in creation order.  Assigning to an existing own property keeps its
  place.
\<close>

definition isDigit :: "char \<Rightarrow> bool" where
  "isDigit c = (48 \<le> (of_char c :: nat) \<and> (of_char c :: nat) \<le> 57)"

definition arrayIndex :: "string \<Rightarrow> nat option" where
  "arrayIndex k =
     (if k \<noteq> [] \<and> list_all isDigit k \<and> (hd k \<noteq> CHR ''0'' \<or> k = ''0'') then
        (let n = foldl (\<lambda>a c. 10 * a + ((of_char c :: nat) - 48)) 0 k
         in if n \<le> 4294967294 then Some n else None)
      else None)"

definition indexBefore :: "nat \<Rightarrow> string \<times> 'v \<Rightarrow> bool" where
  "indexBefore n e = (case arrayIndex (fst e) of Some m \<Rightarrow> m < n | None \<Rightarrow> False)"

definition hasOwn :: "'v props \<Rightarrow> string \<Rightarrow> bool" where
  "hasOwn obj key = (key \<in> set (map fst obj))"

definition put :: "'v props \<Rightarrow> string \<Rightarrow> 'v \<Rightarrow> 'v props" where
  "put obj key v =
     (if hasOwn obj key then map (\<lambda>(k, w). if k = key then (k, v) else (k, w)) obj
      else (case arrayIndex key of
              Some n \<Rightarrow> takeWhile (indexBefore n) obj @ (key, v) # dropWhile (indexBefore n) obj
            | None \<Rightarrow> obj @ [(key, v)]))"

text \<open>
  \<^verbatim>\<open>result[key] = value\<close> on an object created by \<^verbatim>\<open>{}\<close>.  Such an object inherits the
  accessor \<^verbatim>\<open>__proto__\<close> from \<^verbatim>\<open>Object.prototype\<close>: an assignment under that name runs the
  setter, which replaces the prototype of the object (for an object or null) or does
  nothing (for any other value), and in neither case creates an own property.  Every other
  name creates or updates an own data property.
\<close>

definition assign :: "'v props \<Rightarrow> string \<Rightarrow> 'v \<Rightarrow> 'v props" where
  "assign obj key v = (if key = ''__proto__'' then obj else put obj key v)"

text \<open>
  The string a template literal \<^verbatim>\<open>`${v}`\<close> makes of a value.  An array is joined with commas,
  null elements rendering as the empty string.  A plain object renders through
  \<^verbatim>\<open>Object.prototype.toString\<close> unless it has an own property \<^verbatim>\<open>toString\<close>: a parsed file
  never holds a function, so that property is not callable, \<^verbatim>\<open>valueOf\<close> (own and not
  callable, or inherited and returning the object) yields no primitive either, and the
  conversion throws a TypeError.
\<close>

fun toStringJS :: "('n \<Rightarrow> string) \<Rightarrow> 'n json \<Rightarrow> error + string"
  and joinElements :: "('n \<Rightarrow> string) \<Rightarrow> 'n json list \<Rightarrow> error + string"
where
  "toStringJS ns (JString s) = Inr s"
| "toStringJS ns (JNumber n) = Inr (ns n)"
| "toStringJS ns (JBool b) = Inr (if b then ''true'' else ''false'')"
| "toStringJS ns JNull = Inr ''null''"
| "toStringJS ns (JArray xs) = joinElements ns xs"
| "toStringJS ns (JObject es) =
     (if hasOwn es ''toString'' then Inl TypeError else Inr ''[object Object]'')"
| "joinElements ns [] = Inr []"
| "joinElements ns (x # xs) =
     (case (case x of JNull \<Rightarrow> Inr [] | _ \<Rightarrow> toStringJS ns x) of
        Inl e \<Rightarrow> Inl e
      | Inr s \<Rightarrow>
          if xs = [] then Inr s
          else (case joinElements ns xs of Inl e \<Rightarrow> Inl e | Inr r \<Rightarrow> Inr (s @ '','' @ r)))"

definition truthy :: "('n \<Rightarrow> string) \<Rightarrow> 'n json \<Rightarrow> bool" where
  "truthy ns v =
     (case v of
        JString s \<Rightarrow> s \<noteq> []
      | JNumber n \<Rightarrow> ns n \<noteq> ''0'' \<and> ns n \<noteq> ''NaN''
      | JBool b \<Rightarrow> b
      | JNull \<Rightarrow> False
      | JArray xs \<Rightarrow> True
      | JObject es \<Rightarrow> True)"

definition isObject :: "'n json \<Rightarrow> bool" where
  "isObject v = (case v of JArray xs \<Rightarrow> True | JObject es \<Rightarrow> True | _ \<Rightarrow> False)"

subsection \<open>Plural families\<close>

definition formMapping :: "string props" where
  "formMapping =
     [(''zero'', ''=0''), (''one'', ''one''), (''two'', ''two''),
      (''few'', ''few''), (''many'', ''many''), (''other'', ''other'')]"

text \<open>
  \<^verbatim>\<open>formMapping[form] || form\<close>.  Every mapped selector is a non-empty string, so the
  alternative is taken exactly for a form outside the table; \<open>createICUPlural\<close> is only
  reached with forms that \<open>parsePluralKey\<close> produced, which are all in the table.
\<close>

definition icuForm :: "string \<Rightarrow> string" where
  "icuForm form = (case map_of formMapping form of Some s \<Rightarrow> s | None \<Rightarrow> form)"

text \<open>
  \<^verbatim>\<open>`${convertInterpolation(text)}`\<close>: \<open>convertInterpolation\<close> returns a value that is not a
  string as it is, and the template literal then converts it to a string.
\<close>

definition convertedText :: "('n \<Rightarrow> string) \<Rightarrow> 'n json \<Rightarrow> error + string" where
  "convertedText ns text =
     (case text of JString s \<Rightarrow> Inr (convertInterpolation s) | _ \<Rightarrow> toStringJS ns text)"

fun pluralParts :: "('n \<Rightarrow> string) \<Rightarrow> 'n json props \<Rightarrow> error + string list" where
  "pluralParts ns [] = Inr []"
| "pluralParts ns ((form, text) # fs) =
     (case convertedText ns text of
        Inl e \<Rightarrow> Inl e
      | Inr s \<Rightarrow>
          (case pluralParts ns fs of
             Inl e \<Rightarrow> Inl e
           | Inr ps \<Rightarrow> Inr ((icuForm form @ ''{'' @ s @ ''}'') # ps)))"

fun joinWith :: "string \<Rightarrow> string list \<Rightarrow> string" where
  "joinWith sep [] = []"
| "joinWith sep [p] = p"
| "joinWith sep (p # q # ps) = p @ sep @ joinWith sep (q # ps)"

definition createICUPlural :: "('n \<Rightarrow> string) \<Rightarrow> 'n json props \<Rightarrow> error + string" where
  "createICUPlural ns forms =
     (case pluralParts ns forms of
        Inl e \<Rightarrow> Inl e
      | Inr parts \<Rightarrow> Inr (''{count, plural, '' @ joinWith '' '' parts @ ''}''))"

text \<open>
  \<^verbatim>\<open>pluralGroups[baseKey]\<close> reads through the prototype chain of \<^verbatim>\<open>{}\<close>.  Besides the own
  properties of \<^verbatim>\<open>pluralGroups\<close> it finds \<^verbatim>\<open>Object.prototype\<close> itself under \<^verbatim>\<open>__proto__\<close>, the
  built-in methods of \<^verbatim>\<open>Object.prototype\<close>, and whatever an earlier assignment of this
  program has stored on \<^verbatim>\<open>Object.prototype\<close>; the last is the state \<open>proto\<close> that the
  grouping functions pass along.
\<close>

definition objectPrototypeMethods :: "string list" where
  "objectPrototypeMethods =
     [''constructor'', ''__defineGetter__'', ''__defineSetter__'', ''hasOwnProperty'',
      ''__lookupGetter__'', ''__lookupSetter__'', ''isPrototypeOf'',
      ''propertyIsEnumerable'', ''toString'', ''valueOf'', ''toLocaleString'']"

datatype 'n slot =
    Own "'n json props"
  | ObjectPrototype
  | Method
  | Inherited "'n json"
  | Undefined

definition getGroup :: "'n json props props \<Rightarrow> 'n json props \<Rightarrow> string \<Rightarrow> 'n slot" where
  "getGroup pluralGroups proto baseKey =
     (case map_of pluralGroups baseKey of
        Some forms \<Rightarrow> Own forms
      | None \<Rightarrow>
          if baseKey = ''__proto__'' then ObjectPrototype
          else if baseKey \<in> set objectPrototypeMethods then Method
          else (case map_of proto baseKey of Some v \<Rightarrow> Inherited v | None \<Rightarrow> Undefined))"

text \<open>
  The two statements
  \<^verbatim>\<open>if (!pluralGroups[b]) pluralGroups[b] = {}; pluralGroups[b][form] = value;\<close>
  The module is an ES module and so strict code: assigning a property on a primitive that
  was found on the prototype chain throws a TypeError.  An inherited object or method
  takes the property and \<^verbatim>\<open>pluralGroups\<close> stays as it is; the property so written is not
  recorded, since the converter tests such a value for being an object and reads nothing
  else of it.
\<close>

definition storeForm ::
  "('n \<Rightarrow> string) \<Rightarrow> 'n json props props \<Rightarrow> 'n json props \<Rightarrow> string \<Rightarrow> string \<Rightarrow> 'n json
     \<Rightarrow> error + ('n json props props \<times> 'n json props)" where
  "storeForm ns pluralGroups proto baseKey form v =
     (case getGroup pluralGroups proto baseKey of
        Own forms \<Rightarrow> Inr (put pluralGroups baseKey (put forms form v), proto)
      | ObjectPrototype \<Rightarrow> Inr (pluralGroups, put proto form v)
      | Method \<Rightarrow> Inr (pluralGroups, proto)
      | Inherited w \<Rightarrow>
          if \<not> truthy ns w then Inr (put pluralGroups baseKey (put [] form v), proto)
          else if isObject w then Inr (pluralGroups, proto)
          else Inl TypeError
      | Undefined \<Rightarrow> Inr (put pluralGroups baseKey (put [] form v), proto))"

fun emitPlurals ::
  "('n \<Rightarrow> string) \<Rightarrow> 'n json props props \<Rightarrow> 'n json props \<Rightarrow> error + 'n json props" where
  "emitPlurals ns [] result = Inr result"
| "emitPlurals ns ((baseKey, forms) # gs) result =
     (case createICUPlural ns forms of
        Inl e \<Rightarrow> Inl e
      | Inr s \<Rightarrow> emitPlurals ns gs (assign result baseKey (JString s)))"

text \<open>
  \<^verbatim>\<open>typeof value === 'object' && value !== null && !Array.isArray(value)\<close>, and the
  entries of such a value.
\<close>

definition isPlainObject :: "'n json \<Rightarrow> bool" where
  "isPlainObject v = (case v of JObject es \<Rightarrow> True | _ \<Rightarrow> False)"

definition entriesOf :: "'n json \<Rightarrow> 'n json props" where
  "entriesOf v = (case v of JObject es \<Rightarrow> es | _ \<Rightarrow> [])"

text \<open>
  The nesting depth of objects bounds the recursion of the grouping and of the conversion;
  the latter descends into the result of \<open>groupPlurals\<close> and not into its argument.
\<close>

fun depth :: "'n json \<Rightarrow> nat" and depthProps :: "'n json props \<Rightarrow> nat" where
  "depth (JObject es) = Suc (depthProps es)"
| "depth (JString s) = 0"
| "depth (JNumber n) = 0"
| "depth (JBool b) = 0"
| "depth JNull = 0"
| "depth (JArray xs) = 0"
| "depthProps [] = 0"
| "depthProps ((k, v) # es) = max (depth v) (depthProps es)"

lemma depth_entriesOf: "isPlainObject v \<Longrightarrow> depthProps (entriesOf v) < depth v"
  by (cases v) (simp_all add: isPlainObject_def entriesOf_def)

function groupPlurals ::
    "('n \<Rightarrow> string) \<Rightarrow> 'n json props \<Rightarrow> 'n json props \<Rightarrow> error + ('n json props \<times> 'n json props)"
  and scanEntries ::
    "('n \<Rightarrow> string) \<Rightarrow> 'n json props \<Rightarrow> 'n json props \<Rightarrow> 'n json props props \<Rightarrow> 'n json props
       \<Rightarrow> error + ('n json props \<times> 'n json props props \<times> 'n json props)"
where
  "groupPlurals ns translations proto =
     (case scanEntries ns translations [] [] proto of
        Inl e \<Rightarrow> Inl e
      | Inr (result, pluralGroups, proto') \<Rightarrow>
          (case emitPlurals ns pluralGroups result of
             Inl e \<Rightarrow> Inl e
           | Inr result' \<Rightarrow> Inr (result', proto')))"
| "scanEntries ns [] result pluralGroups proto = Inr (result, pluralGroups, proto)"
| "scanEntries ns ((key, v) # es) result pluralGroups proto =
     (case parsePluralKey key of
        Some (baseKey, form) \<Rightarrow>
          (case storeForm ns pluralGroups proto baseKey form v of
             Inl e \<Rightarrow> Inl e
           | Inr (pluralGroups', proto') \<Rightarrow> scanEntries ns es result pluralGroups' proto')
      | None \<Rightarrow>
          if isPlainObject v then
            (case groupPlurals ns (entriesOf v) proto of
               Inl e \<Rightarrow> Inl e
             | Inr (grouped, proto') \<Rightarrow>
                 scanEntries ns es (assign result key (JObject grouped)) pluralGroups proto')
          else scanEntries ns es (assign result key v) pluralGroups proto)"
  by pat_completeness auto
termination
proof (relation "measures
    [\<lambda>x. case x of
            Inl (ns, t, p) \<Rightarrow> depthProps t
          | Inr (ns, es, r, gs, p) \<Rightarrow> depthProps es,
     \<lambda>x. case x of Inl a \<Rightarrow> 1 | Inr b \<Rightarrow> (0::nat),
     \<lambda>x. case x of Inl a \<Rightarrow> 0 | Inr (ns, es, r, gs, p) \<Rightarrow> length es]", goal_cases)
  case 1
  then show ?case by simp
next
  case (2 ns t proto)
  then show ?case by simp
next
  case (3 ns key v es result pluralGroups proto)
  then show ?case by (auto dest: depth_entriesOf)
next
  case (4 ns key v es result pluralGroups proto)
  then show ?case by auto
next
  case (5 ns key v es result pluralGroups proto)
  then show ?case by auto
next
  case (6 ns key v es result pluralGroups proto)
  then show ?case by auto
qed

subsection \<open>The conversion\<close>

lemma depthProps_le_iff: "depthProps es \<le> n \<longleftrightarrow> (\<forall>(k, v) \<in> set es. depth v \<le> n)"
  by (induction es) auto

lemma depthProps_append [simp]: "depthProps (xs @ ys) = max (depthProps xs) (depthProps ys)"
  by (induction xs) auto

lemma depthProps_put: "depthProps (put obj key v) \<le> max (depthProps obj) (depth v)"
proof -
  have upd: "depthProps (map (\<lambda>(k, w). if k = key then (k, v) else (k, w)) obj)
               \<le> max (depthProps obj) (depth v)"
    by (induction obj) auto
  have ins: "depthProps (takeWhile P obj @ (key, v) # dropWhile P obj)
               = max (depthProps obj) (depth v)" for P
  proof -
    have "max (depthProps (takeWhile P obj)) (depthProps (dropWhile P obj)) = depthProps obj"
      by (metis depthProps_append takeWhile_dropWhile_id)
    then show ?thesis by (simp add: max.commute max.left_commute)
  qed
  show ?thesis
    using upd ins by (simp add: put_def max.commute split: option.split)
qed

lemma depthProps_assign: "depthProps (assign obj key v) \<le> max (depthProps obj) (depth v)"
  using depthProps_put [of obj key v] by (simp add: assign_def)

lemma depthProps_emitPlurals:
  "emitPlurals ns gs result = Inr result' \<Longrightarrow> depthProps result' \<le> depthProps result"
proof (induction gs arbitrary: result)
  case Nil
  then show ?case by simp
next
  case (Cons g gs)
  obtain b forms where g: "g = (b, forms)" by (cases g)
  from Cons.prems g obtain s where
    r: "emitPlurals ns gs (assign result b (JString s)) = Inr result'"
    by (auto split: sum.splits)
  have "depthProps result' \<le> depthProps (assign result b (JString s))"
    by (rule Cons.IH [OF r])
  also have "\<dots> \<le> depthProps result"
    using depthProps_assign [of result b "JString s"] by simp
  finally show ?case .
qed

lemma depthProps_groupPlurals_scanEntries:
  "(\<forall>g p. groupPlurals ns t proto = Inr (g, p) \<longrightarrow> depthProps g \<le> depthProps t)"
  "(\<forall>r gs p. scanEntries ns es result groups proto' = Inr (r, gs, p)
      \<longrightarrow> depthProps r \<le> max (depthProps es) (depthProps result))"
proof (induction ns t proto and ns es result groups proto' rule: groupPlurals_scanEntries.induct)
  case (1 ns t proto)
  show ?case
  proof (intro allI impI)
    fix g p
    assume "groupPlurals ns t proto = Inr (g, p)"
    then obtain r gs where s: "scanEntries ns t [] [] proto = Inr (r, gs, p)"
      and e: "emitPlurals ns gs r = Inr g"
      by (auto split: sum.splits)
    from 1 s have "depthProps r \<le> depthProps t" by simp
    with depthProps_emitPlurals [OF e] show "depthProps g \<le> depthProps t" by simp
  qed
next
  case (2 ns result pluralGroups proto)
  show ?case by simp
next
  case (3 ns key v es result pluralGroups proto)
  show ?case
  proof (intro allI impI)
    fix r gs p
    assume a: "scanEntries ns ((key, v) # es) result pluralGroups proto = Inr (r, gs, p)"
    show "depthProps r \<le> max (depthProps ((key, v) # es)) (depthProps result)"
    proof (cases "parsePluralKey key")
      case (Some bf)
      obtain b f where bf: "bf = (b, f)" by (cases bf)
      from a Some bf obtain gs' p' where
        st: "storeForm ns pluralGroups proto b f v = Inr (gs', p')"
        and sc: "scanEntries ns es result gs' p' = Inr (r, gs, p)"
        by (auto split: sum.splits)
      from "3.IH"(4) [OF Some bf [symmetric] st refl] sc
      have "depthProps r \<le> max (depthProps es) (depthProps result)" by simp
      then show ?thesis by simp
    next
      case None
      show ?thesis
      proof (cases "isPlainObject v")
        case True
        from a None True obtain g p' where
          gp: "groupPlurals ns (entriesOf v) proto = Inr (g, p')"
          and sc: "scanEntries ns es (assign result key (JObject g)) pluralGroups p' = Inr (r, gs, p)"
          by (auto split: sum.splits)
        from "3.IH"(1) [OF None True] gp have dg: "depthProps g \<le> depthProps (entriesOf v)"
          by simp
        from "3.IH"(2) [OF None True gp refl] sc
        have "depthProps r \<le> max (depthProps es) (depthProps (assign result key (JObject g)))"
          by simp
        moreover have "depthProps (assign result key (JObject g))
                         \<le> max (depthProps result) (Suc (depthProps g))"
          using depthProps_assign [of result key "JObject g"] by simp
        ultimately show ?thesis using dg depth_entriesOf [OF True] by simp
      next
        case False
        with a None have sc:
          "scanEntries ns es (assign result key v) pluralGroups proto = Inr (r, gs, p)"
          by simp
        from "3.IH"(3) [OF None False] sc
        have "depthProps r \<le> max (depthProps es) (depthProps (assign result key v))" by simp
        with depthProps_assign [of result key v] show ?thesis by simp
      qed
    qed
  qed
qed

lemma depthProps_groupPlurals:
  "groupPlurals ns t proto = Inr (g, p) \<Longrightarrow> depthProps g \<le> depthProps t"
  using depthProps_groupPlurals_scanEntries(1) by blast

function convertTranslations ::
    "('n \<Rightarrow> string) \<Rightarrow> 'n json props \<Rightarrow> 'n json props \<Rightarrow> error + ('n json props \<times> 'n json props)"
  and convertEntries ::
    "('n \<Rightarrow> string) \<Rightarrow> 'n json props \<Rightarrow> 'n json props \<Rightarrow> 'n json props
       \<Rightarrow> error + ('n json props \<times> 'n json props)"
  and convertValue ::
    "('n \<Rightarrow> string) \<Rightarrow> 'n json \<Rightarrow> 'n json props \<Rightarrow> error + ('n json \<times> 'n json props)"
where
  "convertTranslations ns translations proto =
     (case groupPlurals ns translations proto of
        Inl e \<Rightarrow> Inl e
      | Inr (grouped, proto') \<Rightarrow> convertEntries ns grouped [] proto')"
| "convertEntries ns [] result proto = Inr (result, proto)"
| "convertEntries ns ((key, v) # es) result proto =
     (case convertValue ns v proto of
        Inl e \<Rightarrow> Inl e
      | Inr (v', proto') \<Rightarrow> convertEntries ns es (assign result key v') proto')"
| "convertValue ns (JString s) proto =
     Inr (JString (convertNesting (convertInterpolation s)), proto)"
| "convertValue ns (JObject sub) proto =
     (case convertTranslations ns sub proto of
        Inl e \<Rightarrow> Inl e
      | Inr (r, proto') \<Rightarrow> Inr (JObject r, proto'))"
| "convertValue ns (JNumber n) proto = Inr (JNumber n, proto)"
| "convertValue ns (JBool b) proto = Inr (JBool b, proto)"
| "convertValue ns JNull proto = Inr (JNull, proto)"
| "convertValue ns (JArray xs) proto = Inr (JArray xs, proto)"
  by pat_completeness auto
termination
proof (relation "measures
    [\<lambda>x. case x of
            Inl (ns, t, p) \<Rightarrow> depthProps t
          | Inr (Inl (ns, es, r, p)) \<Rightarrow> depthProps es
          | Inr (Inr (ns, v, p)) \<Rightarrow> depth v,
     \<lambda>x. case x of Inl a \<Rightarrow> 2 | Inr (Inl b) \<Rightarrow> 1 | Inr (Inr c) \<Rightarrow> (0::nat),
     \<lambda>x. case x of Inr (Inl (ns, es, r, p)) \<Rightarrow> length es | _ \<Rightarrow> 0]", goal_cases)
  case 1
  then show ?case by simp
next
  case (2 ns t proto b grouped proto')
  then have "depthProps grouped \<le> depthProps t"
    using depthProps_groupPlurals [of ns t proto grouped proto'] by simp
  then show ?case by auto
next
  case (3 ns key v es result proto)
  then show ?case by auto
next
  case (4 ns key v es result proto b v' proto')
  then show ?case by auto
next
  case (5 ns sub proto)
  then show ?case by simp
qed

definition convertFile ::
  "('n \<Rightarrow> string) \<Rightarrow> 'n json props \<Rightarrow> 'n json props \<Rightarrow> error + ('n json props \<times> 'n json props)" where
  "convertFile ns data proto = convertTranslations ns data proto"

section \<open>Notions used in the statements\<close>

text \<open>
  The family of a base key at a level: the forms and the values of the keys of the level
  that have this base key, in the order of the level; and the object that the first loop
  builds when it stores them one after the other.
\<close>

fun familyOf :: "'v props \<Rightarrow> string \<Rightarrow> 'v props" where
  "familyOf [] b = []"
| "familyOf ((k, v) # es) b =
     (case parsePluralKey k of
        Some (b', f) \<Rightarrow> if b' = b then (f, v) # familyOf es b else familyOf es b
      | None \<Rightarrow> familyOf es b)"

definition putAll :: "'v props \<Rightarrow> 'v props \<Rightarrow> 'v props" where
  "putAll obj xs = fold (\<lambda>(k, v) acc. put acc k v) xs obj"

text \<open>
  \<open>Number::toString\<close> on the natural numbers, used where a closed example needs a
  concrete rendering of numbers.
\<close>

fun decimal :: "nat \<Rightarrow> string" where
  "decimal n =
     (if n < 10 then [char_of (48 + n)] else decimal (n div 10) @ [char_of (48 + n mod 10)])"

declare decimal.simps [simp del]

text \<open>
  The specification's words for one placeholder: \<^verbatim>\<open>{{\<close>, then one or more characters that
  are not \<^verbatim>\<open>}\<close>, then \<^verbatim>\<open>}}\<close>.  \<open>spec_placeholder s content rest\<close> says that \<open>s\<close> begins with
  such a placeholder holding \<open>content\<close> and continues with \<open>rest\<close>.
\<close>

definition spec_placeholder :: "string \<Rightarrow> string \<Rightarrow> string \<Rightarrow> bool" where
  "spec_placeholder s content rest \<longleftrightarrow>
     s = ''{{'' @ content @ ''}}'' @ rest \<and> content \<noteq> [] \<and> CHR ''}'' \<notin> set content"

text \<open>A string that holds a placeholder somewhere: interpolation rewriting changes it.\<close>

fun hasPlaceholder :: "string \<Rightarrow> bool" where
  "hasPlaceholder [] = False"
| "hasPlaceholder (c # cs) =
     (case matchInterpolation (c # cs) of Some m \<Rightarrow> True | None \<Rightarrow> hasPlaceholder cs)"

text \<open>
  A nesting reference: \<^verbatim>\<open>$t(\<close>, then one or more characters that are not \<^verbatim>\<open>)\<close>, then
  \<^verbatim>\<open>)\<close>.  \<open>spec_reference s key rest\<close> says that \<open>s\<close> begins with such a reference to
  \<open>key\<close> and continues with \<open>rest\<close>.  A string is \<open>unclosed\<close> when it holds a \<^verbatim>\<open>$t(\<close>
  with no \<^verbatim>\<open>)\<close> behind it.
\<close>

definition spec_reference :: "string \<Rightarrow> string \<Rightarrow> string \<Rightarrow> bool" where
  "spec_reference s key rest \<longleftrightarrow>
     s = ''$t('' @ key @ '')'' @ rest \<and> key \<noteq> [] \<and> CHR '')'' \<notin> set key"

fun unclosed :: "string \<Rightarrow> bool" where
  "unclosed [] = False"
| "unclosed (c # cs) = ((prefix ''$t('' (c # cs) \<and> CHR '')'' \<notin> set cs) \<or> unclosed cs)"

text \<open>
  The text of a string value; the branch that the compilation of a family makes of a
  member holding a string, with interpolation rewriting of the text and nothing else; and
  the rewriting of a string leaf, interpolation rewriting followed by nesting-reference
  rewriting.
\<close>

definition textOf :: "'n json \<Rightarrow> string" where
  "textOf v = (case v of JString s \<Rightarrow> s | _ \<Rightarrow> [])"

definition isString :: "'n json \<Rightarrow> bool" where
  "isString v = (case v of JString s \<Rightarrow> True | _ \<Rightarrow> False)"

definition branch :: "string \<times> 'n json \<Rightarrow> string" where
  "branch fv = icuForm (fst fv) @ ''{'' @ convertInterpolation (textOf (snd fv)) @ ''}''"

definition leafText :: "string \<Rightarrow> string" where
  "leafText s = convertNesting (convertInterpolation s)"


text \<open>
  The order of first appearance: \<open>firstSeen acc ks\<close> appends to \<open>acc\<close>, one after the other,
  the elements of \<open>ks\<close> that are not there yet.
\<close>

definition addNew :: "'a list \<Rightarrow> 'a \<Rightarrow> 'a list" where
  "addNew acc k = (if k \<in> set acc then acc else acc @ [k])"

definition firstSeen :: "'a list \<Rightarrow> 'a list \<Rightarrow> 'a list" where
  "firstSeen acc ks = foldl addNew acc ks"


text \<open>The value found in a tree along a path of keys.\<close>

fun valueAt :: "'n json \<Rightarrow> string list \<Rightarrow> 'n json option" where
  "valueAt v [] = Some v"
| "valueAt v (k # ks) =
     (if isPlainObject v then
        (case map_of (entriesOf v) k of Some w \<Rightarrow> valueAt w ks | None \<Rightarrow> None)
      else None)"

text \<open>
  \<open>heirWithin n K k\<close>: the key \<open>k\<close> is \<open>K\<close> followed by between one and \<open>n\<close> plural
  suffixes, so that \<open>K\<close> becomes the base key of a family after at most \<open>n\<close> groupings of a
  level that holds \<open>k\<close>.
\<close>

primrec heirWithin :: "nat \<Rightarrow> string \<Rightarrow> string \<Rightarrow> bool" where
  "heirWithin 0 K k = False"
| "heirWithin (Suc n) K k =
     (case parsePluralKey k of None \<Rightarrow> False | Some (b, f) \<Rightarrow> b = K \<or> heirWithin n K b)"

text \<open>
  \<open>heirExactly n K k\<close>: the key \<open>k\<close> is \<open>K\<close> followed by exactly \<open>n\<close> plural suffixes, so
  that \<open>n\<close> groupings take \<open>k\<close> to \<open>K\<close>.  \<open>deepHeir n K k\<close>: the key \<open>k\<close> is \<open>K\<close> followed by
  between two and \<open>n + 1\<close> plural suffixes.  At a level that is grouped \<open>n + 1\<close> times such
  a key becomes a member of the family of \<open>K\<close> in a later grouping, after the members with
  one suffix have been compiled.
\<close>

primrec heirExactly :: "nat \<Rightarrow> string \<Rightarrow> string \<Rightarrow> bool" where
  "heirExactly 0 K k \<longleftrightarrow> k = K"
| "heirExactly (Suc n) K k \<longleftrightarrow>
     (case parsePluralKey k of None \<Rightarrow> False | Some (b, f) \<Rightarrow> heirExactly n K b)"

definition deepHeir :: "nat \<Rightarrow> string \<Rightarrow> string \<Rightarrow> bool" where
  "deepHeir n K k = (case parsePluralKey k of None \<Rightarrow> False | Some (b, f) \<Rightarrow> heirWithin n K b)"

text \<open>
  The paths along which the converter carries a value from the input to the output.  The
  level at depth \<open>d\<close> of a tree is grouped \<open>d + 1\<close> times: once by the grouping of each level
  above it, which descends into it, and once by its own conversion.  \<open>freePath n v path\<close>
  says of a value \<open>v\<close> that is grouped \<open>n\<close> times that at every level on the path the keys
  are unique, the key taken is neither plural-suffixed nor \<^verbatim>\<open>__proto__\<close>, and no key of the
  level is the key taken followed by plural suffixes, up to as many as the level has
  groupings.
\<close>

fun freePath :: "nat \<Rightarrow> 'n json \<Rightarrow> string list \<Rightarrow> bool" where
  "freePath n v [] = True"
| "freePath n v (k # ks) =
     (isPlainObject v \<and> distinct (map fst (entriesOf v))
      \<and> parsePluralKey k = None \<and> k \<noteq> ''__proto__''
      \<and> \<not> list_ex (heirWithin n k) (map fst (entriesOf v))
      \<and> (case map_of (entriesOf v) k of Some w \<Rightarrow> freePath (Suc n) w ks | None \<Rightarrow> False))"


text \<open>
  \<open>regroup ns n L M\<close>: \<open>n\<close> groupings, none of which writes to \<^verbatim>\<open>Object.prototype\<close>, take
  the level \<open>L\<close> to \<open>M\<close>; and the levels that a grouping leaves as they are but for
  their nested objects: unique keys, none of them plural-suffixed or \<^verbatim>\<open>__proto__\<close>.
\<close>

primrec regroup :: "('n \<Rightarrow> string) \<Rightarrow> nat \<Rightarrow> 'n json props \<Rightarrow> 'n json props \<Rightarrow> bool" where
  "regroup ns 0 L M \<longleftrightarrow> M = L"
| "regroup ns (Suc n) L M \<longleftrightarrow>
     (case groupPlurals ns L [] of Inl e \<Rightarrow> False | Inr (g, p) \<Rightarrow> p = [] \<and> regroup ns n g M)"


text \<open>
  The tree with every string leaf rewritten, and the trees in which, at every level, the
  keys are unique and no key is plural-suffixed, \<^verbatim>\<open>__proto__\<close> or an array index.
\<close>

fun rewriteLeaves :: "'n json \<Rightarrow> 'n json" and rewriteProps :: "'n json props \<Rightarrow> 'n json props" where
  "rewriteLeaves (JString s) = JString (leafText s)"
| "rewriteLeaves (JObject es) = JObject (rewriteProps es)"
| "rewriteLeaves (JNumber n) = JNumber n"
| "rewriteLeaves (JBool b) = JBool b"
| "rewriteLeaves JNull = JNull"
| "rewriteLeaves (JArray xs) = JArray xs"
| "rewriteProps [] = []"
| "rewriteProps ((k, v) # es) = (k, rewriteLeaves v) # rewriteProps es"

fun plainTree :: "'n json \<Rightarrow> bool" and plainLevel :: "'n json props \<Rightarrow> bool" where
  "plainTree (JObject es) = plainLevel es"
| "plainTree (JString s) = True"
| "plainTree (JNumber n) = True"
| "plainTree (JBool b) = True"
| "plainTree JNull = True"
| "plainTree (JArray xs) = True"
| "plainLevel [] = True"
| "plainLevel ((k, v) # es) =
     ((parsePluralKey k = None \<and> k \<noteq> ''__proto__'') \<and> arrayIndex k = None \<and> \<not> hasOwn es k \<and> plainTree v \<and> plainLevel es)"

section \<open>Properties of the converter\<close>

subsection \<open>Own properties\<close>

lemma put_not_Nil: "put obj k v \<noteq> []"
  by (auto simp: put_def hasOwn_def split: option.splits)

lemma fst_update_entry:
  "map fst (map (\<lambda>(k', w). if k' = k then (k', v) else (k', w)) obj) = map fst obj"
  by (induction obj) auto

lemma put_own:
  "hasOwn obj k \<Longrightarrow> put obj k v = map (\<lambda>(k', w). if k' = k then (k', v) else (k', w)) obj"
  by (simp add: put_def)

lemma keys_put_own: "hasOwn obj k \<Longrightarrow> map fst (put obj k v) = map fst obj"
  by (simp only: put_own fst_update_entry)

lemma put_index:
  "\<not> hasOwn obj k \<Longrightarrow> arrayIndex k = Some n \<Longrightarrow>
     put obj k v = takeWhile (indexBefore n) obj @ (k, v) # dropWhile (indexBefore n) obj"
  by (simp add: put_def)

lemma put_append: "\<not> hasOwn obj k \<Longrightarrow> arrayIndex k = None \<Longrightarrow> put obj k v = obj @ [(k, v)]"
  by (simp add: put_def)

lemma keys_insert_between:
  "set (map fst (takeWhile P obj @ (k, v) # dropWhile P obj)) = insert k (set (map fst obj))"
proof -
  have "set (map fst obj) = set (map fst (takeWhile P obj @ dropWhile P obj))" by simp
  also have "\<dots> = set (map fst (takeWhile P obj)) \<union> set (map fst (dropWhile P obj))"
    by (simp only: map_append set_append)
  finally show ?thesis by auto
qed

lemma keys_put: "set (map fst (put obj k v)) = insert k (set (map fst obj))"
proof (cases "hasOwn obj k")
  case True
  then have "k \<in> set (map fst obj)" by (simp add: hasOwn_def)
  then show ?thesis using keys_put_own [OF True, of v] by auto
next
  case False
  show ?thesis
  proof (cases "arrayIndex k")
    case None
    with False show ?thesis by (simp add: put_append)
  next
    case (Some n)
    show ?thesis unfolding put_index [OF False Some] by (rule keys_insert_between)
  qed
qed

lemma hasOwn_put: "hasOwn (put obj k v) k' \<longleftrightarrow> k' = k \<or> hasOwn obj k'"
  using keys_put [of obj k v] by (auto simp: hasOwn_def)

lemma map_of_update_entry:
  "map_of (map (\<lambda>(k', w). if k' = k then (k', v) else (k', w)) obj) k' =
     (if k' = k then (if k \<in> set (map fst obj) then Some v else None) else map_of obj k')"
  by (induction obj) (auto simp: rev_image_eqI)

lemma map_of_insert_between:
  assumes "k \<notin> set (map fst obj)"
  shows "map_of (takeWhile P obj @ (k, v) # dropWhile P obj) = (map_of obj)(k \<mapsto> v)"
proof (rule ext)
  fix x
  have kt: "map_of (takeWhile P obj) k = None"
    using assms by (auto simp: map_of_eq_None_iff dest!: set_takeWhileD)
  have "map_of obj = map_of (takeWhile P obj @ dropWhile P obj)" by simp
  also have "\<dots> = map_of (dropWhile P obj) ++ map_of (takeWhile P obj)"
    by (simp only: map_of_append)
  finally have o: "map_of obj = map_of (dropWhile P obj) ++ map_of (takeWhile P obj)" .
  show "map_of (takeWhile P obj @ (k, v) # dropWhile P obj) x = ((map_of obj)(k \<mapsto> v)) x"
    unfolding o using kt
    by (cases "x = k") (auto simp: map_add_def split: option.splits)
qed

lemma map_of_put: "map_of (put obj k v) = (map_of obj)(k \<mapsto> v)"
proof (cases "hasOwn obj k")
  case True
  then have "k \<in> set (map fst obj)" by (simp add: hasOwn_def)
  then show ?thesis unfolding put_own [OF True] by (auto simp: fun_eq_iff map_of_update_entry)
next
  case False
  then have nk: "k \<notin> set (map fst obj)" by (simp add: hasOwn_def)
  show ?thesis
  proof (cases "arrayIndex k")
    case None
    from nk have mk: "map_of obj k = None" by (simp add: map_of_eq_None_iff)
    have "map_of (obj @ [(k, v)]) x = ((map_of obj)(k \<mapsto> v)) x" for x
      using mk by (cases "x = k") (auto simp: map_add_def split: option.splits)
    then show ?thesis unfolding put_append [OF False None] by (simp only: fun_eq_iff) simp
  next
    case (Some n)
    show ?thesis unfolding put_index [OF False Some] by (rule map_of_insert_between [OF nk])
  qed
qed

lemma distinct_insert_between:
  assumes "distinct (map fst obj)" "k \<notin> set (map fst obj)"
  shows "distinct (map fst (takeWhile P obj @ (k, v) # dropWhile P obj))"
proof -
  have "distinct (map fst (takeWhile P obj @ dropWhile P obj))" using assms by simp
  then have "distinct (map fst (takeWhile P obj) @ map fst (dropWhile P obj))"
    by (simp only: map_append)
  moreover have "k \<notin> set (map fst (takeWhile P obj))" "k \<notin> set (map fst (dropWhile P obj))"
    using assms(2) by (auto dest!: set_takeWhileD set_dropWhileD)
  ultimately show ?thesis by auto
qed

lemma distinct_put: "distinct (map fst obj) \<Longrightarrow> distinct (map fst (put obj k v))"
proof (cases "hasOwn obj k")
  case True
  assume "distinct (map fst obj)"
  then show ?thesis using True by (simp add: keys_put_own)
next
  case False
  assume d: "distinct (map fst obj)"
  from False have nk: "k \<notin> set (map fst obj)" by (simp add: hasOwn_def)
  show ?thesis
  proof (cases "arrayIndex k")
    case None
    with False d nk show ?thesis by (simp add: put_append)
  next
    case (Some n)
    show ?thesis unfolding put_index [OF False Some] by (rule distinct_insert_between [OF d nk])
  qed
qed

lemma keys_assign:
  "set (map fst (assign obj k v)) =
     (if k = ''__proto__'' then set (map fst obj) else insert k (set (map fst obj)))"
  using keys_put [of obj k v] by (simp add: assign_def)

lemma distinct_assign: "distinct (map fst obj) \<Longrightarrow> distinct (map fst (assign obj k v))"
  by (simp add: assign_def distinct_put)

lemma map_of_assign:
  "map_of (assign obj k v) = (if k = ''__proto__'' then map_of obj else (map_of obj)(k \<mapsto> v))"
  by (simp add: assign_def map_of_put)

subsection \<open>The state of Object.prototype only grows\<close>

lemma storeForm_proto: "storeForm ns gs p b f v = Inr (gs', []) \<Longrightarrow> p = []"
  by (auto simp: storeForm_def put_not_Nil split: slot.splits if_splits)

lemma storeForm_writes:
  "storeForm ns gs p b f v = Inr (gs', p') \<Longrightarrow> p' = p \<or> (b = ''__proto__'' \<and> p' = put p f v)"
  by (auto simp: storeForm_def getGroup_def split: option.splits if_splits)

lemma proto_grows_groupPlurals_scanEntries:
  "(\<forall>g. groupPlurals ns t p = Inr (g, []) \<longrightarrow> p = [])"
  "(\<forall>r' gs'. scanEntries ns es r gs p' = Inr (r', gs', []) \<longrightarrow> p' = [])"
proof (induction ns t p and ns es r gs p' rule: groupPlurals_scanEntries.induct)
  case (1 ns t proto)
  then show ?case by (auto split: sum.splits)
next
  case (2 ns result pluralGroups proto)
  then show ?case by simp
next
  case (3 ns key v es result pluralGroups proto)
  show ?case
  proof (intro allI impI)
    fix r' gs'
    assume a: "scanEntries ns ((key, v) # es) result pluralGroups proto = Inr (r', gs', [])"
    show "proto = []"
    proof (cases "parsePluralKey key")
      case (Some bf)
      obtain b f where bf: "bf = (b, f)" by (cases bf)
      from a Some bf obtain gs1 p1 where
        st: "storeForm ns pluralGroups proto b f v = Inr (gs1, p1)"
        and sc: "scanEntries ns es result gs1 p1 = Inr (r', gs', [])"
        by (auto split: sum.splits)
      from "3.IH"(4) [OF Some bf [symmetric] st refl] sc have "p1 = []" by simp
      with st show ?thesis by (auto dest: storeForm_proto)
    next
      case None
      show ?thesis
      proof (cases "isPlainObject v")
        case True
        from a None True obtain g p1 where
          gp: "groupPlurals ns (entriesOf v) proto = Inr (g, p1)"
          and sc: "scanEntries ns es (assign result key (JObject g)) pluralGroups p1 = Inr (r', gs', [])"
          by (auto split: sum.splits)
        from "3.IH"(2) [OF None True gp refl] sc have "p1 = []" by simp
        with "3.IH"(1) [OF None True] gp show ?thesis by simp
      next
        case False
        with a None have
          "scanEntries ns es (assign result key v) pluralGroups proto = Inr (r', gs', [])"
          by simp
        with "3.IH"(3) [OF None False] show ?thesis by simp
      qed
    qed
  qed
qed

lemma proto_grows_convert:
  "(\<forall>out. convertTranslations ns t p = Inr (out, []) \<longrightarrow> p = [])"
  "(\<forall>out. convertEntries ns es r p' = Inr (out, []) \<longrightarrow> p' = [])"
  "(\<forall>w. convertValue ns v p'' = Inr (w, []) \<longrightarrow> p'' = [])"
proof (induction ns t p and ns es r p' and ns v p'' rule: convertTranslations_convertEntries_convertValue.induct)
  case (1 ns t proto)
  show ?case
  proof (intro allI impI)
    fix out
    assume "convertTranslations ns t proto = Inr (out, [])"
    then obtain g p1 where gp: "groupPlurals ns t proto = Inr (g, p1)"
      and ce: "convertEntries ns g [] p1 = Inr (out, [])"
      by (auto split: sum.splits)
    from 1 [OF gp refl] ce have "p1 = []" by simp
    with gp proto_grows_groupPlurals_scanEntries(1) show "proto = []" by blast
  qed
next
  case (3 ns key v es result proto)
  show ?case
  proof (intro allI impI)
    fix out
    assume "convertEntries ns ((key, v) # es) result proto = Inr (out, [])"
    then obtain v' p1 where cv: "convertValue ns v proto = Inr (v', p1)"
      and ce: "convertEntries ns es (assign result key v') p1 = Inr (out, [])"
      by (auto split: sum.splits)
    from "3.IH"(2) [OF cv refl] ce have "p1 = []" by simp
    with "3.IH"(1) cv show "proto = []" by simp
  qed
qed (auto split: sum.splits)

subsection \<open>The plural key pattern\<close>

lemma takeWhile_until:
  "c \<notin> set xs \<Longrightarrow> takeWhile (\<lambda>x. x \<noteq> c) (xs @ c # ys) = xs"
  by (induction xs) auto

lemma dropWhile_until:
  "c \<notin> set xs \<Longrightarrow> dropWhile (\<lambda>x. x \<noteq> c) (xs @ c # ys) = c # ys"
  by (induction xs) auto

lemma form_no_underscore: "f \<in> set pluralForms \<Longrightarrow> CHR ''_'' \<notin> set f"
  by (auto simp: pluralForms_def)

lemma parsePluralKey_iff:
  "parsePluralKey key = Some (b, f) \<longleftrightarrow>
     key = b @ ''_'' @ f \<and> f \<in> set pluralForms \<and> b \<noteq> [] \<and> \<not> list_ex lineTerminator b"
proof
  assume p: "parsePluralKey key = Some (b, f)"
  let ?P = "\<lambda>c. c \<noteq> CHR ''_''"
  from p obtain u rb where d: "dropWhile ?P (rev key) = u # rb"
    by (auto simp: parsePluralKey_def Let_def split: list.splits)
  from p d have f: "f = rev (takeWhile ?P (rev key))" and b: "b = rev rb"
    and ok: "f \<in> set pluralForms" "rb \<noteq> []" "\<not> list_ex lineTerminator rb"
    by (auto simp: parsePluralKey_def Let_def split: if_splits)
  have "\<not> ?P (hd (dropWhile ?P (rev key)))"
    by (rule hd_dropWhile) (simp add: d)
  then have u: "u = CHR ''_''" by (simp add: d)
  have "rev key = takeWhile ?P (rev key) @ dropWhile ?P (rev key)" by simp
  then have "rev key = rev f @ CHR ''_'' # rev b" by (simp only: d u f b rev_rev_ident)
  then have "rev (rev key) = rev (rev f @ CHR ''_'' # rev b)" by (rule arg_cong)
  then have "key = b @ ''_'' @ f" by simp
  with ok b show "key = b @ ''_'' @ f \<and> f \<in> set pluralForms \<and> b \<noteq> [] \<and> \<not> list_ex lineTerminator b"
    by (simp add: list_ex_iff)
next
  assume a: "key = b @ ''_'' @ f \<and> f \<in> set pluralForms \<and> b \<noteq> [] \<and> \<not> list_ex lineTerminator b"
  then have nu: "CHR ''_'' \<notin> set (rev f)" by (auto dest: form_no_underscore)
  from a have r: "rev key = rev f @ CHR ''_'' # rev b" by simp
  show "parsePluralKey key = Some (b, f)"
    using a by (simp add: parsePluralKey_def r takeWhile_until [OF nu] dropWhile_until [OF nu] list_ex_iff)
qed

lemma parsePluralKey_key: "parsePluralKey key = Some (b, f) \<Longrightarrow> key = b @ ''_'' @ f"
  by (simp add: parsePluralKey_iff)

lemma parsePluralKey_form: "parsePluralKey key = Some (b, f) \<Longrightarrow> f \<in> set pluralForms"
  by (simp add: parsePluralKey_iff)

lemma arrayIndex_form: "f \<in> set pluralForms \<Longrightarrow> arrayIndex f = None"
  by (auto simp: pluralForms_def arrayIndex_def isDigit_def)

subsection \<open>One level of a tree\<close>

lemma putAll_Nil [simp]: "putAll obj [] = obj"
  by (simp add: putAll_def)

lemma putAll_Cons [simp]: "putAll obj ((k, v) # xs) = putAll (put obj k v) xs"
  by (simp add: putAll_def)

lemma scanEntries_Cons_cases:
  assumes "scanEntries ns ((k, v) # es) r gs p = Inr (r', gs', p')"
  obtains
    (plural) b f gs1 p1 where "parsePluralKey k = Some (b, f)"
      "storeForm ns gs p b f v = Inr (gs1, p1)" "scanEntries ns es r gs1 p1 = Inr (r', gs', p')"
  | (nested) g p1 where "parsePluralKey k = None" "isPlainObject v"
      "groupPlurals ns (entriesOf v) p = Inr (g, p1)"
      "scanEntries ns es (assign r k (JObject g)) gs p1 = Inr (r', gs', p')"
  | (plain) "parsePluralKey k = None" "\<not> isPlainObject v"
      "scanEntries ns es (assign r k v) gs p = Inr (r', gs', p')"
  using assms by (auto split: option.splits sum.splits if_splits)

lemma scanEntries_Cons_clean:
  assumes "scanEntries ns ((k, v) # es) r gs [] = Inr (r', gs', [])"
  obtains
    (plural) b f gs1 where "parsePluralKey k = Some (b, f)"
      "storeForm ns gs [] b f v = Inr (gs1, [])" "scanEntries ns es r gs1 [] = Inr (r', gs', [])"
  | (nested) g where "parsePluralKey k = None" "isPlainObject v"
      "groupPlurals ns (entriesOf v) [] = Inr (g, [])"
      "scanEntries ns es (assign r k (JObject g)) gs [] = Inr (r', gs', [])"
  | (plain) "parsePluralKey k = None" "\<not> isPlainObject v"
      "scanEntries ns es (assign r k v) gs [] = Inr (r', gs', [])"
proof (cases rule: scanEntries_Cons_cases [OF assms])
  case (1 b f gs1 p1)
  from 1(3) proto_grows_groupPlurals_scanEntries(2) have "p1 = []" by blast
  with 1 plural show ?thesis by simp
next
  case (2 g p1)
  from 2(4) proto_grows_groupPlurals_scanEntries(2) have "p1 = []" by blast
  with 2 nested show ?thesis by simp
next
  case 3
  with plain show ?thesis by simp
qed

lemma storeForm_clean:
  assumes "storeForm ns gs [] b f v = Inr (gs1, [])"
  shows "gs1 = (if map_of gs b = None \<and> b \<in> set objectPrototypeMethods then gs
               else put gs b (put (case map_of gs b of Some F \<Rightarrow> F | None \<Rightarrow> []) f v))"
    and "map_of gs b = None \<Longrightarrow> b \<noteq> ''__proto__''"
  using assms
  by (auto simp: storeForm_def getGroup_def put_not_Nil split: option.splits if_splits)

lemma storeForm_other:
  assumes "storeForm ns gs [] b' f v = Inr (gs1, [])" "b \<noteq> b'"
  shows "map_of gs1 b = map_of gs b"
  using assms storeForm_clean(1) [OF assms(1)] by (auto simp: map_of_put)

lemma scan_family:
  assumes "scanEntries ns es r gs [] = Inr (r', gs', [])" "b \<notin> set objectPrototypeMethods"
  shows "map_of gs' b =
           (if familyOf es b = [] then map_of gs b
            else Some (putAll (case map_of gs b of Some F \<Rightarrow> F | None \<Rightarrow> []) (familyOf es b)))"
  using assms(1)
proof (induction es arbitrary: r gs)
  case Nil
  then show ?case by simp
next
  case (Cons e es)
  obtain k v where e: "e = (k, v)" by (cases e)
  from Cons.prems have pr: "scanEntries ns ((k, v) # es) r gs [] = Inr (r', gs', [])"
    unfolding e .
  from pr show ?case
  proof (cases rule: scanEntries_Cons_clean)
    case (plural b' f gs1)
    note ih = Cons.IH [OF plural(3)]
    show ?thesis
    proof (cases "b' = b")
      case True
      let ?F = "case map_of gs b of Some F \<Rightarrow> F | None \<Rightarrow> []"
      from storeForm_clean(1) [OF plural(2)] True assms(2)
      have "gs1 = put gs b (put ?F f v)" by simp
      then have m: "map_of gs1 b = Some (put ?F f v)" by (simp add: map_of_put)
      show ?thesis using ih plural(1) True m by (simp add: e)
    next
      case False
      then have "map_of gs1 b = map_of gs b"
        using storeForm_other [OF plural(2)] by simp
      then show ?thesis using ih plural(1) False by (simp add: e)
    qed
  next
    case (nested g)
    from Cons.IH [OF nested(4)] nested(1) show ?thesis by (simp add: e)
  next
    case plain
    from Cons.IH [OF plain(3)] plain(1) show ?thesis by (simp add: e)
  qed
qed

lemma scan_method:
  assumes "scanEntries ns es r gs [] = Inr (r', gs', [])" "b \<in> set objectPrototypeMethods"
    "map_of gs b = None"
  shows "map_of gs' b = None"
  using assms(1,3)
proof (induction es arbitrary: r gs)
  case Nil
  then show ?case by simp
next
  case (Cons e es)
  obtain k v where e: "e = (k, v)" by (cases e)
  from Cons.prems(1) have pr: "scanEntries ns ((k, v) # es) r gs [] = Inr (r', gs', [])"
    unfolding e .
  from pr show ?case
  proof (cases rule: scanEntries_Cons_clean)
    case (plural b' f gs1)
    have "map_of gs1 b = None"
    proof (cases "b' = b")
      case True
      with storeForm_clean(1) [OF plural(2)] assms(2) Cons.prems(2) show ?thesis by simp
    next
      case False
      with storeForm_other [OF plural(2)] Cons.prems(2) show ?thesis by simp
    qed
    with Cons.IH [OF plural(3)] show ?thesis .
  next
    case (nested g)
    from Cons.IH [OF nested(4) Cons.prems(2)] show ?thesis .
  next
    case plain
    from Cons.IH [OF plain(3) Cons.prems(2)] show ?thesis .
  qed
qed

lemma hasOwn_Nil [simp]: "\<not> hasOwn [] k"
  by (simp add: hasOwn_def)

lemma hasOwn_Cons [simp]: "hasOwn ((k, v) # es) k' \<longleftrightarrow> k' = k \<or> hasOwn es k'"
  by (auto simp: hasOwn_def)

lemma hasOwn_assign:
  "hasOwn (assign obj k v) k' \<longleftrightarrow> (k' = k \<and> k \<noteq> ''__proto__'') \<or> hasOwn obj k'"
  by (auto simp: assign_def hasOwn_put)

lemma map_of_Some_hasOwn: "map_of xs k = Some v \<Longrightarrow> hasOwn xs k"
  by (auto dest: map_of_SomeD simp: rev_image_eqI hasOwn_def)

lemma map_of_None_hasOwn: "map_of xs k = None \<longleftrightarrow> \<not> hasOwn xs k"
  by (simp add: map_of_eq_None_iff hasOwn_def)

lemma in_set_hasOwn: "(k, v) \<in> set xs \<Longrightarrow> hasOwn xs k"
  by (auto simp: hasOwn_def rev_image_eqI)

lemma storeForm_distinct:
  "storeForm ns gs p b f v = Inr (gs1, p1) \<Longrightarrow> distinct (map fst gs) \<Longrightarrow> distinct (map fst gs1)"
  by (auto simp: storeForm_def getGroup_def distinct_put split: option.splits if_splits)

lemma storeForm_no_proto:
  "storeForm ns gs p b f v = Inr (gs1, p1) \<Longrightarrow> \<not> hasOwn gs ''__proto__''
     \<Longrightarrow> \<not> hasOwn gs1 ''__proto__''"
  by (auto simp: storeForm_def getGroup_def hasOwn_put dest: map_of_Some_hasOwn
           split: option.splits if_splits)

lemma scan_groups_distinct:
  "scanEntries ns es r gs p = Inr (r', gs', p') \<Longrightarrow> distinct (map fst gs)
     \<Longrightarrow> distinct (map fst gs')"
proof (induction es arbitrary: r gs p)
  case Nil
  then show ?case by simp
next
  case (Cons e es)
  obtain k v where e: "e = (k, v)" by (cases e)
  from Cons.prems(1) have pr: "scanEntries ns ((k, v) # es) r gs p = Inr (r', gs', p')"
    unfolding e .
  from pr show ?case
  proof (cases rule: scanEntries_Cons_cases)
    case (plural b f gs1 p1)
    show ?thesis
      by (rule Cons.IH [OF plural(3) storeForm_distinct [OF plural(2) Cons.prems(2)]])
  next
    case (nested g p1)
    show ?thesis by (rule Cons.IH [OF nested(4) Cons.prems(2)])
  next
    case plain
    show ?thesis by (rule Cons.IH [OF plain(3) Cons.prems(2)])
  qed
qed

lemma scan_groups_no_proto:
  "scanEntries ns es r gs p = Inr (r', gs', p') \<Longrightarrow> \<not> hasOwn gs ''__proto__''
     \<Longrightarrow> \<not> hasOwn gs' ''__proto__''"
proof (induction es arbitrary: r gs p)
  case Nil
  then show ?case by simp
next
  case (Cons e es)
  obtain k v where e: "e = (k, v)" by (cases e)
  from Cons.prems(1) have pr: "scanEntries ns ((k, v) # es) r gs p = Inr (r', gs', p')"
    unfolding e .
  from pr show ?case
  proof (cases rule: scanEntries_Cons_cases)
    case (plural b f gs1 p1)
    show ?thesis
      by (rule Cons.IH [OF plural(3) storeForm_no_proto [OF plural(2) Cons.prems(2)]])
  next
    case (nested g p1)
    show ?thesis by (rule Cons.IH [OF nested(4) Cons.prems(2)])
  next
    case plain
    show ?thesis by (rule Cons.IH [OF plain(3) Cons.prems(2)])
  qed
qed

lemma scan_result_distinct:
  "scanEntries ns es r gs p = Inr (r', gs', p') \<Longrightarrow> distinct (map fst r)
     \<Longrightarrow> distinct (map fst r')"
proof (induction es arbitrary: r gs p)
  case Nil
  then show ?case by simp
next
  case (Cons e es)
  obtain k v where e: "e = (k, v)" by (cases e)
  from Cons.prems(1) have pr: "scanEntries ns ((k, v) # es) r gs p = Inr (r', gs', p')"
    unfolding e .
  from pr show ?case
  proof (cases rule: scanEntries_Cons_cases)
    case (plural b f gs1 p1)
    show ?thesis by (rule Cons.IH [OF plural(3) Cons.prems(2)])
  next
    case (nested g p1)
    show ?thesis by (rule Cons.IH [OF nested(4) distinct_assign [OF Cons.prems(2)]])
  next
    case plain
    show ?thesis by (rule Cons.IH [OF plain(3) distinct_assign [OF Cons.prems(2)]])
  qed
qed

lemma scan_result_keys:
  "scanEntries ns es r gs p = Inr (r', gs', p') \<Longrightarrow>
     hasOwn r' k \<longleftrightarrow> hasOwn r k \<or> (hasOwn es k \<and> (parsePluralKey k = None \<and> k \<noteq> ''__proto__''))"
proof (induction es arbitrary: r gs p)
  case Nil
  then show ?case by simp
next
  case (Cons e es)
  obtain k v where e: "e = (k, v)" by (cases e)
  from Cons.prems(1) have pr: "scanEntries ns ((k, v) # es) r gs p = Inr (r', gs', p')"
    unfolding e .
  from pr show ?case
  proof (cases rule: scanEntries_Cons_cases)
    case (plural b f gs1 p1)
    from Cons.IH [OF plural(3)] plural(1) show ?thesis
      by (auto simp: e)
  next
    case (nested g p1)
    from Cons.IH [OF nested(4)] nested(1) show ?thesis
      by (auto simp: e hasOwn_assign)
  next
    case plain
    from Cons.IH [OF plain(3)] plain(1) show ?thesis
      by (auto simp: e hasOwn_assign)
  qed
qed

lemma scan_result_other:
  "scanEntries ns es r gs p = Inr (r', gs', p') \<Longrightarrow> \<not> hasOwn es k
     \<Longrightarrow> map_of r' k = map_of r k"
proof (induction es arbitrary: r gs p)
  case Nil
  then show ?case by simp
next
  case (Cons e es)
  obtain k' v where e: "e = (k', v)" by (cases e)
  from Cons.prems(2) have ne: "k \<noteq> k'" and nk: "\<not> hasOwn es k" by (auto simp: e)
  from Cons.prems(1) have pr: "scanEntries ns ((k', v) # es) r gs p = Inr (r', gs', p')"
    unfolding e .
  from pr show ?case
  proof (cases rule: scanEntries_Cons_cases)
    case (plural b f gs1 p1)
    show ?thesis by (rule Cons.IH [OF plural(3) nk])
  next
    case (nested g p1)
    from Cons.IH [OF nested(4) nk] ne show ?thesis by (simp add: map_of_assign)
  next
    case plain
    from Cons.IH [OF plain(3) nk] ne show ?thesis by (simp add: map_of_assign)
  qed
qed

lemma scan_result_plain:
  assumes "scanEntries ns es r gs p = Inr (r', gs', p')" "distinct (map fst es)"
    "(k, v) \<in> set es" "parsePluralKey k = None \<and> k \<noteq> ''__proto__''" "\<not> isPlainObject v"
  shows "map_of r' k = Some v"
  using assms(1,2,3)
proof (induction es arbitrary: r gs p)
  case Nil
  then show ?case by simp
next
  case (Cons e es)
  obtain k' v' where e: "e = (k', v')" by (cases e)
  from Cons.prems(1) have pr: "scanEntries ns ((k', v') # es) r gs p = Inr (r', gs', p')"
    unfolding e .
  from Cons.prems(2) have d: "distinct (map fst es)" and nk: "\<not> hasOwn es k'"
    by (auto simp: e hasOwn_def)
  show ?case
  proof (cases "(k, v) = (k', v')")
    case True
    then have kv: "k' = k" "v' = v" by simp_all
    from pr assms(4,5) kv
    have "scanEntries ns es (assign r k v) gs p = Inr (r', gs', p')"
      by auto
    from scan_result_other [OF this] nk kv assms(4) show ?thesis
      by (simp add: map_of_assign)
  next
    case False
    with Cons.prems(3) have m: "(k, v) \<in> set es" by (auto simp: e)
    from pr show ?thesis
    proof (cases rule: scanEntries_Cons_cases)
      case (plural b f gs1 p1)
      show ?thesis by (rule Cons.IH [OF plural(3) d m])
    next
      case (nested g p1)
      show ?thesis by (rule Cons.IH [OF nested(4) d m])
    next
      case plain
      show ?thesis by (rule Cons.IH [OF plain(3) d m])
    qed
  qed
qed

subsection \<open>The second loop\<close>

lemma emit_hasOwn:
  "emitPlurals ns gs r = Inr r' \<Longrightarrow>
     hasOwn r' k \<longleftrightarrow> hasOwn r k \<or> (hasOwn gs k \<and> k \<noteq> ''__proto__'')"
proof (induction gs arbitrary: r)
  case Nil
  then show ?case by simp
next
  case (Cons e gs)
  obtain b F where e: "e = (b, F)" by (cases e)
  from Cons.prems obtain s where
    em: "emitPlurals ns gs (assign r b (JString s)) = Inr r'"
    by (auto simp: e split: sum.splits)
  from Cons.IH [OF em] show ?case by (auto simp: e hasOwn_assign)
qed

lemma emit_distinct:
  "emitPlurals ns gs r = Inr r' \<Longrightarrow> distinct (map fst r) \<Longrightarrow> distinct (map fst r')"
proof (induction gs arbitrary: r)
  case Nil
  then show ?case by simp
next
  case (Cons e gs)
  obtain b F where e: "e = (b, F)" by (cases e)
  from Cons.prems(1) obtain s where
    em: "emitPlurals ns gs (assign r b (JString s)) = Inr r'"
    by (auto simp: e split: sum.splits)
  show ?case by (rule Cons.IH [OF em distinct_assign [OF Cons.prems(2)]])
qed

lemma emit_other:
  "emitPlurals ns gs r = Inr r' \<Longrightarrow> \<not> hasOwn gs k \<Longrightarrow> map_of r' k = map_of r k"
proof (induction gs arbitrary: r)
  case Nil
  then show ?case by simp
next
  case (Cons e gs)
  obtain b F where e: "e = (b, F)" by (cases e)
  from Cons.prems(1) obtain s where
    em: "emitPlurals ns gs (assign r b (JString s)) = Inr r'"
    by (auto simp: e split: sum.splits)
  from Cons.prems(2) have "k \<noteq> b" "\<not> hasOwn gs k" by (auto simp: e)
  with Cons.IH [OF em] show ?case by (simp add: map_of_assign)
qed

lemma emit_value:
  assumes "emitPlurals ns gs r = Inr r'" "distinct (map fst gs)" "(b, F) \<in> set gs"
    "b \<noteq> ''__proto__''"
  shows "\<exists>s. createICUPlural ns F = Inr s \<and> map_of r' b = Some (JString s)"
  using assms(1,2,3)
proof (induction gs arbitrary: r)
  case Nil
  then show ?case by simp
next
  case (Cons e gs)
  obtain b' F' where e: "e = (b', F')" by (cases e)
  from Cons.prems(1) obtain s where c: "createICUPlural ns F' = Inr s"
    and em: "emitPlurals ns gs (assign r b' (JString s)) = Inr r'"
    by (auto simp: e split: sum.splits)
  from Cons.prems(2) have d: "distinct (map fst gs)" and nk: "\<not> hasOwn gs b'"
    by (auto simp: e hasOwn_def)
  show ?case
  proof (cases "(b, F) = (b', F')")
    case True
    with emit_other [OF em nk] assms(4) c show ?thesis by (simp add: map_of_assign)
  next
    case False
    with Cons.prems(3) have "(b, F) \<in> set gs" by (auto simp: e)
    from Cons.IH [OF em d this] show ?thesis .
  qed
qed

subsection \<open>The grouped level\<close>

lemma groupPlurals_cases:
  assumes "groupPlurals ns t p = Inr (g, p')"
  obtains r gs where "scanEntries ns t [] [] p = Inr (r, gs, p')" "emitPlurals ns gs r = Inr g"
  using assms by (auto split: sum.splits)

lemma groupPlurals_distinct:
  assumes "groupPlurals ns t p = Inr (g, p')"
  shows "distinct (map fst g)"
proof -
  from assms obtain r gs where sc: "scanEntries ns t [] [] p = Inr (r, gs, p')"
    and em: "emitPlurals ns gs r = Inr g"
    by (rule groupPlurals_cases)
  from scan_result_distinct [OF sc] have "distinct (map fst r)" by simp
  then show ?thesis by (rule emit_distinct [OF em])
qed

lemma groupPlurals_keys:
  assumes "groupPlurals ns t [] = Inr (g, [])"
  shows "hasOwn g k \<longleftrightarrow>
           (hasOwn t k \<and> (parsePluralKey k = None \<and> k \<noteq> ''__proto__'')) \<or> (familyOf t k \<noteq> [] \<and> k \<notin> set objectPrototypeMethods)"
proof -
  from assms obtain r gs where sc: "scanEntries ns t [] [] [] = Inr (r, gs, [])"
    and em: "emitPlurals ns gs r = Inr g"
    by (rule groupPlurals_cases)
  have np: "\<not> hasOwn gs ''__proto__''"
    using scan_groups_no_proto [OF sc] by simp
  have gk: "hasOwn gs k \<longleftrightarrow> familyOf t k \<noteq> [] \<and> k \<notin> set objectPrototypeMethods"
  proof (cases "k \<in> set objectPrototypeMethods")
    case True
    from scan_method [OF sc True] have "map_of gs k = None" by simp
    with True show ?thesis by (simp add: map_of_None_hasOwn)
  next
    case False
    from scan_family [OF sc False] have
      "map_of gs k = (if familyOf t k = [] then None else Some (putAll [] (familyOf t k)))"
      by simp
    then have "map_of gs k = None \<longleftrightarrow> familyOf t k = []" by simp
    with False show ?thesis by (auto simp: map_of_None_hasOwn)
  qed
  have "hasOwn g k \<longleftrightarrow> hasOwn r k \<or> (hasOwn gs k \<and> k \<noteq> ''__proto__'')"
    by (rule emit_hasOwn [OF em])
  also have "hasOwn r k \<longleftrightarrow> hasOwn t k \<and> (parsePluralKey k = None \<and> k \<noteq> ''__proto__'')"
    using scan_result_keys [OF sc, of k] by simp
  finally show ?thesis using gk np by auto
qed

lemma groupPlurals_no_proto:
  assumes "groupPlurals ns t p = Inr (g, p')"
  shows "\<not> hasOwn g ''__proto__''"
proof -
  from assms obtain r gs where sc: "scanEntries ns t [] [] p = Inr (r, gs, p')"
    and em: "emitPlurals ns gs r = Inr g"
    by (rule groupPlurals_cases)
  from scan_result_keys [OF sc, of "''__proto__''"] have "\<not> hasOwn r ''__proto__''"
    by simp
  with emit_hasOwn [OF em, of "''__proto__''"] show ?thesis by simp
qed

lemma groupPlurals_family:
  assumes "groupPlurals ns t [] = Inr (g, [])" "b \<notin> set objectPrototypeMethods"
    "familyOf t b \<noteq> []"
  shows "\<exists>s. createICUPlural ns (putAll [] (familyOf t b)) = Inr s
             \<and> map_of g b = Some (JString s)"
proof -
  from assms(1) obtain r gs where sc: "scanEntries ns t [] [] [] = Inr (r, gs, [])"
    and em: "emitPlurals ns gs r = Inr g"
    by (rule groupPlurals_cases)
  from scan_family [OF sc assms(2)] assms(3)
  have m: "map_of gs b = Some (putAll [] (familyOf t b))" by simp
  then have mem: "(b, putAll [] (familyOf t b)) \<in> set gs" by (rule map_of_SomeD)
  have d: "distinct (map fst gs)" using scan_groups_distinct [OF sc] by simp
  have "\<not> hasOwn gs ''__proto__''" using scan_groups_no_proto [OF sc] by simp
  with map_of_Some_hasOwn [OF m] have nb: "b \<noteq> ''__proto__''" by auto
  show ?thesis by (rule emit_value [OF em d mem nb])
qed


subsection \<open>Evaluation of closed examples\<close>

lemmas conv_defs =
  matchInterpolation_def matchNesting_def parsePluralKey_def pluralForms_def
  lineTerminator_def arrayIndex_def isDigit_def indexBefore_def hasOwn_def put_def
  assign_def formMapping_def icuForm_def convertedText_def createICUPlural_def
  objectPrototypeMethods_def getGroup_def storeForm_def truthy_def isObject_def
  isPlainObject_def entriesOf_def

subsection \<open>Placeholders\<close>

lemma matchInterpolation_iff:
  "matchInterpolation s = Some (content, rest) \<longleftrightarrow> spec_placeholder s content rest"
proof
  assume m: "matchInterpolation s = Some (content, rest)"
  then obtain t where s: "s = CHR ''{'' # CHR ''{'' # t"
    by (auto simp: matchInterpolation_def split: list.splits if_splits)
  from m s have c: "content = takeWhile (\<lambda>c. c \<noteq> CHR ''}'') t" and ne: "content \<noteq> []"
    and d: "dropWhile (\<lambda>c. c \<noteq> CHR ''}'') t = CHR ''}'' # CHR ''}'' # rest"
    by (auto simp: matchInterpolation_def Let_def split: list.splits if_splits)
  have "t = takeWhile (\<lambda>c. c \<noteq> CHR ''}'') t @ dropWhile (\<lambda>c. c \<noteq> CHR ''}'') t" by simp
  then have "t = content @ CHR ''}'' # CHR ''}'' # rest" using c d by simp
  moreover have "CHR ''}'' \<notin> set content" using c by (auto dest: set_takeWhileD)
  ultimately show "spec_placeholder s content rest"
    using s ne by (simp add: spec_placeholder_def)
next
  assume "spec_placeholder s content rest"
  then have s: "s = CHR ''{'' # CHR ''{'' # (content @ CHR ''}'' # CHR ''}'' # rest)"
    and ne: "content \<noteq> []" and nc: "CHR ''}'' \<notin> set content"
    by (simp_all add: spec_placeholder_def)
  show "matchInterpolation s = Some (content, rest)"
    using ne by (simp add: matchInterpolation_def s takeWhile_until [OF nc] dropWhile_until [OF nc])
qed

lemma convertInterpolation_at_placeholder:
  "spec_placeholder s content rest \<Longrightarrow>
     convertInterpolation s = ''{'' @ content @ ''}'' @ convertInterpolation rest"
proof -
  assume p: "spec_placeholder s content rest"
  then obtain c cs where s: "s = c # cs" by (auto simp: spec_placeholder_def)
  from p have "matchInterpolation (c # cs) = Some (content, rest)"
    unfolding s by (simp only: matchInterpolation_iff)
  then show ?thesis unfolding s by simp
qed

lemma convertInterpolation_no_placeholder:
  "(\<nexists>content rest. spec_placeholder (c # cs) content rest) \<Longrightarrow>
     convertInterpolation (c # cs) = c # convertInterpolation cs"
proof -
  assume n: "\<nexists>content rest. spec_placeholder (c # cs) content rest"
  have "matchInterpolation (c # cs) = None"
  proof (cases "matchInterpolation (c # cs)")
    case None
    then show ?thesis .
  next
    case (Some cr)
    obtain content rest where "cr = (content, rest)" by (cases cr)
    with Some have "spec_placeholder (c # cs) content rest"
      by (simp only: matchInterpolation_iff)
    with n show ?thesis by blast
  qed
  then show ?thesis by simp
qed

lemma matchInterpolation_double_brace:
  "matchInterpolation s = Some (content, rest) \<Longrightarrow> prefix ''{{'' s"
  by (auto simp: matchInterpolation_def split: list.splits if_splits)

lemma convertInterpolation_unchanged:
  "\<not> sublist ''{{'' s \<Longrightarrow> convertInterpolation s = s"
proof (induction s)
  case Nil
  show ?case by simp
next
  case (Cons c cs)
  have "matchInterpolation (c # cs) = None"
  proof (cases "matchInterpolation (c # cs)")
    case None
    then show ?thesis .
  next
    case (Some cr)
    obtain content rest where "cr = (content, rest)" by (cases cr)
    with Some have "matchInterpolation (c # cs) = Some (content, rest)" by simp
    then have "prefix ''{{'' (c # cs)" by (rule matchInterpolation_double_brace)
    then have "sublist ''{{'' (c # cs)" by (rule prefix_imp_sublist)
    with Cons.prems show ?thesis by simp
  qed
  moreover have "\<not> sublist ''{{'' cs" using Cons.prems by (auto simp: sublist_Cons_right)
  ultimately show ?case using Cons.IH by simp
qed

subsection \<open>The leaf pass over a grouped level\<close>

lemma convertEntries_Cons_cases:
  assumes "convertEntries ns ((k, v) # es) r p = Inr (out, p')"
  obtains w p1 where "convertValue ns v p = Inr (w, p1)"
    "convertEntries ns es (assign r k w) p1 = Inr (out, p')"
  using assms by (auto split: sum.splits)

lemma convertEntries_hasOwn:
  "convertEntries ns es r p = Inr (out, p') \<Longrightarrow>
     hasOwn out k \<longleftrightarrow> hasOwn r k \<or> (hasOwn es k \<and> k \<noteq> ''__proto__'')"
proof (induction es arbitrary: r p)
  case Nil
  then show ?case by simp
next
  case (Cons e es)
  obtain k' v where e: "e = (k', v)" by (cases e)
  from Cons.prems have pr: "convertEntries ns ((k', v) # es) r p = Inr (out, p')" unfolding e .
  from pr obtain w p1 where ce: "convertEntries ns es (assign r k' w) p1 = Inr (out, p')"
    by (rule convertEntries_Cons_cases)
  from Cons.IH [OF ce] show ?case by (auto simp: e hasOwn_assign)
qed

lemma convertEntries_distinct:
  "convertEntries ns es r p = Inr (out, p') \<Longrightarrow> distinct (map fst r)
     \<Longrightarrow> distinct (map fst out)"
proof (induction es arbitrary: r p)
  case Nil
  then show ?case by simp
next
  case (Cons e es)
  obtain k' v where e: "e = (k', v)" by (cases e)
  from Cons.prems(1) have pr: "convertEntries ns ((k', v) # es) r p = Inr (out, p')"
    unfolding e .
  from pr obtain w p1 where ce: "convertEntries ns es (assign r k' w) p1 = Inr (out, p')"
    by (rule convertEntries_Cons_cases)
  show ?case by (rule Cons.IH [OF ce distinct_assign [OF Cons.prems(2)]])
qed

lemma convertEntries_other:
  "convertEntries ns es r p = Inr (out, p') \<Longrightarrow> \<not> hasOwn es k
     \<Longrightarrow> map_of out k = map_of r k"
proof (induction es arbitrary: r p)
  case Nil
  then show ?case by simp
next
  case (Cons e es)
  obtain k' v where e: "e = (k', v)" by (cases e)
  from Cons.prems(1) have pr: "convertEntries ns ((k', v) # es) r p = Inr (out, p')"
    unfolding e .
  from pr obtain w p1 where ce: "convertEntries ns es (assign r k' w) p1 = Inr (out, p')"
    by (rule convertEntries_Cons_cases)
  from Cons.prems(2) have "k \<noteq> k'" "\<not> hasOwn es k" by (auto simp: e)
  with Cons.IH [OF ce] show ?case by (simp add: map_of_assign)
qed

lemma convertEntries_value:
  assumes "convertEntries ns es r p = Inr (out, p')" "distinct (map fst es)"
    "(k, v) \<in> set es" "k \<noteq> ''__proto__''"
  shows "\<exists>w p1 p2. convertValue ns v p1 = Inr (w, p2) \<and> map_of out k = Some w"
  using assms(1,2,3)
proof (induction es arbitrary: r p)
  case Nil
  then show ?case by simp
next
  case (Cons e es)
  obtain k' v' where e: "e = (k', v')" by (cases e)
  from Cons.prems(1) have pr: "convertEntries ns ((k', v') # es) r p = Inr (out, p')"
    unfolding e .
  from pr obtain w p1 where cv: "convertValue ns v' p = Inr (w, p1)"
    and ce: "convertEntries ns es (assign r k' w) p1 = Inr (out, p')"
    by (rule convertEntries_Cons_cases)
  from Cons.prems(2) have d: "distinct (map fst es)" and nk: "\<not> hasOwn es k'"
    by (auto simp: e hasOwn_def)
  show ?case
  proof (cases "(k, v) = (k', v')")
    case True
    with convertEntries_other [OF ce nk] assms(4) have "map_of out k = Some w"
      by (simp add: map_of_assign)
    with cv True show ?thesis by auto
  next
    case False
    with Cons.prems(3) have "(k, v) \<in> set es" by (auto simp: e)
    from Cons.IH [OF ce d this] show ?thesis .
  qed
qed

subsection \<open>The converted level\<close>

lemma convertTranslations_cases:
  assumes "convertTranslations ns t p = Inr (out, p')"
  obtains g p1 where "groupPlurals ns t p = Inr (g, p1)"
    "convertEntries ns g [] p1 = Inr (out, p')"
  using assms by (auto split: sum.splits)

lemma convertTranslations_clean:
  assumes "convertTranslations ns t [] = Inr (out, [])"
  obtains g where "groupPlurals ns t [] = Inr (g, [])"
    "convertEntries ns g [] [] = Inr (out, [])"
proof -
  from assms obtain g p1 where gp: "groupPlurals ns t [] = Inr (g, p1)"
    and ce: "convertEntries ns g [] p1 = Inr (out, [])"
    by (rule convertTranslations_cases)
  from ce proto_grows_convert(2) have "p1 = []" by blast
  with gp ce that show ?thesis by simp
qed

lemma converted_keys:
  assumes "convertTranslations ns t [] = Inr (out, [])"
  shows "hasOwn out k \<longleftrightarrow>
           (hasOwn t k \<and> (parsePluralKey k = None \<and> k \<noteq> ''__proto__'')) \<or> (familyOf t k \<noteq> [] \<and> k \<notin> set objectPrototypeMethods)"
proof -
  from assms obtain g where gp: "groupPlurals ns t [] = Inr (g, [])"
    and ce: "convertEntries ns g [] [] = Inr (out, [])"
    by (rule convertTranslations_clean)
  from convertEntries_hasOwn [OF ce, of k] groupPlurals_no_proto [OF gp]
  have "hasOwn out k \<longleftrightarrow> hasOwn g k" by auto
  with groupPlurals_keys [OF gp, of k] show ?thesis by simp
qed

lemma converted_distinct:
  assumes "convertTranslations ns t p = Inr (out, p')"
  shows "distinct (map fst out)"
proof -
  from assms obtain g p1 where ce: "convertEntries ns g [] p1 = Inr (out, p')"
    by (rule convertTranslations_cases)
  from convertEntries_distinct [OF ce] show ?thesis by simp
qed

lemma converted_family:
  assumes "convertTranslations ns t [] = Inr (out, [])" "b \<notin> set objectPrototypeMethods"
    "familyOf t b \<noteq> []"
  shows "\<exists>s. createICUPlural ns (putAll [] (familyOf t b)) = Inr s
             \<and> map_of out b = Some (JString (convertNesting (convertInterpolation s)))"
proof -
  from assms(1) obtain g where gp: "groupPlurals ns t [] = Inr (g, [])"
    and ce: "convertEntries ns g [] [] = Inr (out, [])"
    by (rule convertTranslations_clean)
  from groupPlurals_family [OF gp assms(2,3)] obtain s where
    c: "createICUPlural ns (putAll [] (familyOf t b)) = Inr s"
    and m: "map_of g b = Some (JString s)"
    by blast
  from m have mem: "(b, JString s) \<in> set g" by (rule map_of_SomeD)
  from map_of_Some_hasOwn [OF m] groupPlurals_no_proto [OF gp] have nb: "b \<noteq> ''__proto__''"
    by auto
  from convertEntries_value [OF ce groupPlurals_distinct [OF gp] mem nb]
  have "map_of out b = Some (JString (convertNesting (convertInterpolation s)))" by auto
  with c show ?thesis by blast
qed


subsection \<open>Families of string values\<close>

lemma familyOf_member:
  "(f, v) \<in> set (familyOf t b) \<Longrightarrow> \<exists>k. (k, v) \<in> set t \<and> parsePluralKey k = Some (b, f)"
  by (induction t) (fastforce split: option.splits if_splits)+

lemma familyOf_forms: "(f, v) \<in> set (familyOf t b) \<Longrightarrow> f \<in> set pluralForms"
  by (auto dest!: familyOf_member parsePluralKey_form)

lemma familyOf_distinct: "distinct (map fst t) \<Longrightarrow> distinct (map fst (familyOf t b))"
proof (induction t)
  case Nil
  then show ?case by simp
next
  case (Cons e t)
  obtain k v where e: "e = (k, v)" by (cases e)
  from Cons.prems have d: "distinct (map fst t)" and nk: "\<not> hasOwn t k"
    by (auto simp: e hasOwn_def)
  show ?case
  proof (cases "parsePluralKey k")
    case None
    with Cons.IH [OF d] show ?thesis by (simp add: e)
  next
    case (Some bf)
    obtain b' f where bf: "bf = (b', f)" by (cases bf)
    show ?thesis
    proof (cases "b' = b")
      case False
      with Cons.IH [OF d] Some bf show ?thesis by (simp add: e)
    next
      case True
      have "f \<notin> fst ` set (familyOf t b)"
      proof
        assume "f \<in> fst ` set (familyOf t b)"
        then obtain v' where "(f, v') \<in> set (familyOf t b)" by auto
        from familyOf_member [OF this] obtain k' where
          k': "(k', v') \<in> set t" "parsePluralKey k' = Some (b, f)" by blast
        from parsePluralKey_key [OF k'(2)] parsePluralKey_key [of k b f] Some bf True
        have "k' = k" by simp
        with k'(1) nk show False by (auto dest: in_set_hasOwn)
      qed
      with Cons.IH [OF d] Some bf True show ?thesis by (simp add: e)
    qed
  qed
qed

lemma putAll_fresh:
  "distinct (map fst xs) \<Longrightarrow> \<forall>k \<in> fst ` set xs. arrayIndex k = None \<and> \<not> hasOwn obj k
     \<Longrightarrow> putAll obj xs = obj @ xs"
proof (induction xs arbitrary: obj)
  case Nil
  then show ?case by simp
next
  case (Cons e xs)
  obtain k v where e: "e = (k, v)" by (cases e)
  from Cons.prems have p: "put obj k v = obj @ [(k, v)]"
    by (simp add: e put_append)
  have "putAll (obj @ [(k, v)]) xs = (obj @ [(k, v)]) @ xs"
  proof (rule Cons.IH)
    show "distinct (map fst xs)" using Cons.prems(1) by simp
    show "\<forall>k' \<in> fst ` set xs. arrayIndex k' = None \<and> \<not> hasOwn (obj @ [(k, v)]) k'"
      using Cons.prems by (auto simp: e hasOwn_def)
  qed
  with p show ?case by (simp add: e)
qed

lemma forms_of_distinct_level:
  assumes "distinct (map fst t)"
  shows "putAll [] (familyOf t b) = familyOf t b"
proof -
  have "putAll [] (familyOf t b) = [] @ familyOf t b"
  proof (rule putAll_fresh)
    show "distinct (map fst (familyOf t b))" by (rule familyOf_distinct [OF assms])
    show "\<forall>k \<in> fst ` set (familyOf t b). arrayIndex k = None \<and> \<not> hasOwn [] k"
      by (auto dest!: familyOf_forms simp: arrayIndex_form)
  qed
  then show ?thesis by simp
qed

lemma pluralParts_strings:
  "list_all (\<lambda>fv. isString (snd fv)) fs \<Longrightarrow> pluralParts ns fs = Inr (map branch fs)"
proof (induction fs)
  case Nil
  then show ?case by simp
next
  case (Cons e fs)
  obtain f v where e: "e = (f, v)" by (cases e)
  from Cons.prems obtain s where v: "v = JString s"
    by (cases v) (auto simp: e isString_def)
  from Cons show ?case by (simp add: e v convertedText_def branch_def textOf_def)
qed

lemma createICUPlural_strings:
  "list_all (\<lambda>fv. isString (snd fv)) fs \<Longrightarrow>
     createICUPlural ns fs = Inr (''{count, plural, '' @ joinWith '' '' (map branch fs) @ ''}'')"
  by (simp add: createICUPlural_def pluralParts_strings)

subsection \<open>The leaf pass on a compiled expression\<close>

lemma convertInterpolation_other_char:
  "c \<noteq> CHR ''{'' \<Longrightarrow> convertInterpolation (c # cs) = c # convertInterpolation cs"
  by (simp add: matchInterpolation_def split: list.splits)

lemma convertNesting_other_char:
  "c \<noteq> CHR ''$'' \<Longrightarrow> convertNesting (c # cs) = c # convertNesting cs"
  by (simp add: matchNesting_def split: list.splits)

lemma convertInterpolation_single_brace:
  "d \<noteq> CHR ''{'' \<Longrightarrow>
     convertInterpolation (CHR ''{'' # d # cs) = CHR ''{'' # convertInterpolation (d # cs)"
  by (simp add: matchInterpolation_def)

lemma leafText_header:
  "leafText (''{count, plural, '' @ x) = ''{count, plural, '' @ leafText x"
proof -
  have "convertInterpolation (''{count, plural, '' @ x) = ''{count, plural, '' @ convertInterpolation x"
    by (simp add: convertInterpolation_other_char convertInterpolation_single_brace
             del: convertInterpolation.simps)
  then show ?thesis
    by (simp add: leafText_def convertNesting_other_char del: convertNesting.simps)
qed

lemma matchNesting_decomp:
  "matchNesting s = Some (key, rest) \<Longrightarrow> s = ''$t('' @ key @ '')'' @ rest"
proof -
  assume m: "matchNesting s = Some (key, rest)"
  then obtain t where s: "s = CHR ''$'' # CHR ''t'' # CHR ''('' # t"
    by (auto simp: matchNesting_def split: list.splits if_splits)
  from m s have c: "key = takeWhile (\<lambda>c. c \<noteq> CHR '')'') t"
    and d: "dropWhile (\<lambda>c. c \<noteq> CHR '')'') t = CHR '')'' # rest"
    by (auto simp: matchNesting_def Let_def split: list.splits if_splits)
  have "t = takeWhile (\<lambda>c. c \<noteq> CHR '')'') t @ dropWhile (\<lambda>c. c \<noteq> CHR '')'') t" by simp
  then have "t = key @ CHR '')'' # rest" using c d by simp
  with s show ?thesis by simp
qed




lemma convertInterpolation_no_brace:
  "CHR ''{'' \<notin> set x \<Longrightarrow> convertInterpolation (x @ y) = x @ convertInterpolation y"
  by (induction x) (auto simp: convertInterpolation_other_char simp del: convertInterpolation.simps)

lemma convertNesting_no_dollar:
  "CHR ''$'' \<notin> set x \<Longrightarrow> convertNesting (x @ y) = x @ convertNesting y"
  by (induction x) (auto simp: convertNesting_other_char simp del: convertNesting.simps)

lemma icuForm_chars:
  "f \<in> set pluralForms \<Longrightarrow> CHR ''{'' \<notin> set (icuForm f) \<and> CHR ''$'' \<notin> set (icuForm f)"
  by (auto simp: pluralForms_def icuForm_def formMapping_def)


lemma plural_key_not_method:
  "parsePluralKey k \<noteq> None \<Longrightarrow> k \<notin> set objectPrototypeMethods"
  by (auto simp: objectPrototypeMethods_def parsePluralKey_def pluralForms_def)


lemma convertInterpolation_plain: "CHR ''{'' \<notin> set x \<Longrightarrow> convertInterpolation x = x"
  using convertInterpolation_no_brace [of x "[]"] by simp

lemma convertNesting_plain: "CHR ''$'' \<notin> set x \<Longrightarrow> convertNesting x = x"
  using convertNesting_no_dollar [of x "[]"] by simp

subsection \<open>Compiling one family\<close>







subsection \<open>Key order\<close>

lemma firstSeen_Nil [simp]: "firstSeen acc [] = acc"
  by (simp add: firstSeen_def)

lemma firstSeen_Cons [simp]: "firstSeen acc (k # ks) = firstSeen (addNew acc k) ks"
  by (simp add: firstSeen_def)


lemma set_addNew [simp]: "set (addNew acc k) = insert k (set acc)"
  by (auto simp: addNew_def)














subsection \<open>Paths through a tree\<close>

lemma isPlainObject_JObject [simp]: "isPlainObject (JObject es)"
  by (simp add: isPlainObject_def)

lemma entriesOf_JObject [simp]: "entriesOf (JObject es) = es"
  by (simp add: entriesOf_def)

lemma scan_result_nested:
  assumes "scanEntries ns es r gs [] = Inr (r', gs', [])" "distinct (map fst es)"
    "(k, v) \<in> set es" "parsePluralKey k = None \<and> k \<noteq> ''__proto__''" "isPlainObject v"
  shows "\<exists>g. groupPlurals ns (entriesOf v) [] = Inr (g, []) \<and> map_of r' k = Some (JObject g)"
  using assms(1,2,3)
proof (induction es arbitrary: r gs)
  case Nil
  then show ?case by simp
next
  case (Cons e es)
  obtain k' v' where e: "e = (k', v')" by (cases e)
  from Cons.prems(1) have pr: "scanEntries ns ((k', v') # es) r gs [] = Inr (r', gs', [])"
    unfolding e .
  from Cons.prems(2) have d: "distinct (map fst es)" and nk: "\<not> hasOwn es k'"
    by (auto simp: e hasOwn_def)
  show ?case
  proof (cases "(k, v) = (k', v')")
    case True
    then have kv: "k' = k" "v' = v" by simp_all
    from pr show ?thesis
    proof (cases rule: scanEntries_Cons_clean)
      case (plural b f gs1)
      with assms(4) kv show ?thesis by simp
    next
      case (nested g)
      from scan_result_other [OF nested(4)] nk kv assms(4)
      have "map_of r' k = Some (JObject g)" by (simp add: map_of_assign)
      with nested(3) kv show ?thesis by auto
    next
      case plain
      with assms(5) kv show ?thesis by simp
    qed
  next
    case False
    with Cons.prems(3) have m: "(k, v) \<in> set es" by (auto simp: e)
    from pr show ?thesis
    proof (cases rule: scanEntries_Cons_clean)
      case (plural b f gs1)
      show ?thesis by (rule Cons.IH [OF plural(3) d m])
    next
      case (nested g)
      show ?thesis by (rule Cons.IH [OF nested(4) d m])
    next
      case plain
      show ?thesis by (rule Cons.IH [OF plain(3) d m])
    qed
  qed
qed

lemma groupPlurals_nested:
  assumes "groupPlurals ns t [] = Inr (g, [])" "distinct (map fst t)" "(k, v) \<in> set t"
    "parsePluralKey k = None \<and> k \<noteq> ''__proto__''" "isPlainObject v" "familyOf t k = []"
  shows "\<exists>g'. groupPlurals ns (entriesOf v) [] = Inr (g', []) \<and> map_of g k = Some (JObject g')"
proof -
  from assms(1) obtain r gs where sc: "scanEntries ns t [] [] [] = Inr (r, gs, [])"
    and em: "emitPlurals ns gs r = Inr g"
    by (rule groupPlurals_cases)
  have "map_of gs k = None"
  proof (cases "k \<in> set objectPrototypeMethods")
    case True
    from scan_method [OF sc True] show ?thesis by simp
  next
    case False
    from scan_family [OF sc False] assms(6) show ?thesis by simp
  qed
  then have "\<not> hasOwn gs k" by (simp add: map_of_None_hasOwn)
  from emit_other [OF em this] scan_result_nested [OF sc assms(2,3,4,5)]
  show ?thesis by simp
qed

lemma convertEntries_value_clean:
  assumes "convertEntries ns es r [] = Inr (out, [])" "distinct (map fst es)"
    "(k, v) \<in> set es" "k \<noteq> ''__proto__''"
  shows "\<exists>w. convertValue ns v [] = Inr (w, []) \<and> map_of out k = Some w"
  using assms(1,2,3)
proof (induction es arbitrary: r)
  case Nil
  then show ?case by simp
next
  case (Cons e es)
  obtain k' v' where e: "e = (k', v')" by (cases e)
  from Cons.prems(1) have pr: "convertEntries ns ((k', v') # es) r [] = Inr (out, [])"
    unfolding e .
  from pr obtain w p1 where cv: "convertValue ns v' [] = Inr (w, p1)"
    and ce: "convertEntries ns es (assign r k' w) p1 = Inr (out, [])"
    by (rule convertEntries_Cons_cases)
  from ce proto_grows_convert(2) have p1: "p1 = []" by blast
  from Cons.prems(2) have d: "distinct (map fst es)" and nk: "\<not> hasOwn es k'"
    by (auto simp: e hasOwn_def)
  show ?case
  proof (cases "(k, v) = (k', v')")
    case True
    with convertEntries_other [OF ce nk] assms(4) have "map_of out k = Some w"
      by (simp add: map_of_assign)
    with cv p1 True show ?thesis by auto
  next
    case False
    with Cons.prems(3) have "(k, v) \<in> set es" by (auto simp: e)
    from Cons.IH [OF ce [unfolded p1] d this] show ?thesis .
  qed
qed

lemma JObject_entriesOf: "isPlainObject v \<Longrightarrow> JObject (entriesOf v) = v"
  by (cases v) (simp_all add: isPlainObject_def entriesOf_def)

subsection \<open>Trees without plural keys\<close>

lemma hasOwn_append: "hasOwn (xs @ ys) k \<longleftrightarrow> hasOwn xs k \<or> hasOwn ys k"
  by (auto simp: hasOwn_def)

lemma assign_fresh:
  "(parsePluralKey k = None \<and> k \<noteq> ''__proto__'') \<Longrightarrow> arrayIndex k = None \<Longrightarrow> \<not> hasOwn r k \<Longrightarrow> assign r k v = r @ [(k, v)]"
  by (simp add: assign_def put_append)

lemma plainLevel_entriesOf: "isPlainObject v \<Longrightarrow> plainTree v \<Longrightarrow> plainLevel (entriesOf v)"
  by (cases v) (simp_all add: isPlainObject_def)

lemma grouping_plain_tree:
  "plainLevel t \<longrightarrow> groupPlurals ns t p = Inr (t, p)"
  "plainLevel es \<longrightarrow> (\<forall>k. hasOwn es k \<longrightarrow> \<not> hasOwn r k) \<longrightarrow>
     scanEntries ns es r gs p' = Inr (r @ es, gs, p')"
proof (induction ns t p and ns es r gs p' rule: groupPlurals_scanEntries.induct)
  case (1 ns t proto)
  then show ?case by simp
next
  case (2 ns result pluralGroups proto)
  show ?case by simp
next
  case (3 ns key v es result pluralGroups proto)
  show ?case
  proof (intro impI)
    assume pl: "plainLevel ((key, v) # es)"
      and fr: "\<forall>k. hasOwn ((key, v) # es) k \<longrightarrow> \<not> hasOwn result k"
    from pl have pk: "parsePluralKey key = None \<and> key \<noteq> ''__proto__''" and ai: "arrayIndex key = None" and nk: "\<not> hasOwn es key"
      and pv: "plainTree v" and pe: "plainLevel es"
      by simp_all
    from pk have none: "parsePluralKey key = None" by simp
    from fr have nr: "\<not> hasOwn result key" by simp
    have fr': "\<forall>k. hasOwn es k \<longrightarrow> \<not> hasOwn (result @ [(key, w)]) k" for w
      using fr nk by (auto simp: hasOwn_append)
    show "scanEntries ns ((key, v) # es) result pluralGroups proto
            = Inr (result @ (key, v) # es, pluralGroups, proto)"
    proof (cases "isPlainObject v")
      case True
      from "3.IH"(1) [OF none True] plainLevel_entriesOf [OF True pv]
      have gp: "groupPlurals ns (entriesOf v) proto = Inr (entriesOf v, proto)" by simp
      from "3.IH"(2) [OF none True gp refl] pe fr'
      have "scanEntries ns es (assign result key (JObject (entriesOf v))) pluralGroups proto
              = Inr (assign result key (JObject (entriesOf v)) @ es, pluralGroups, proto)"
        by (simp add: assign_fresh [OF pk ai nr])
      with none True gp show ?thesis
        by (simp add: assign_fresh [OF pk ai nr] JObject_entriesOf)
    next
      case False
      from "3.IH"(3) [OF none False] pe fr'
      have "scanEntries ns es (assign result key v) pluralGroups proto
              = Inr (assign result key v @ es, pluralGroups, proto)"
        by (simp add: assign_fresh [OF pk ai nr])
      with none False show ?thesis by (simp add: assign_fresh [OF pk ai nr])
    qed
  qed
qed

lemma hasOwn_rewriteProps [simp]: "hasOwn (rewriteProps es) k = hasOwn es k"
  by (induction es) auto

lemma conversion_plain_tree:
  "plainLevel t \<longrightarrow> convertTranslations ns t p = Inr (rewriteProps t, p)"
  "plainLevel es \<longrightarrow> (\<forall>k. hasOwn es k \<longrightarrow> \<not> hasOwn r k) \<longrightarrow>
     convertEntries ns es r p' = Inr (r @ rewriteProps es, p')"
  "plainTree v \<longrightarrow> convertValue ns v p'' = Inr (rewriteLeaves v, p'')"
proof (induction ns t p and ns es r p' and ns v p''
       rule: convertTranslations_convertEntries_convertValue.induct)
  case (1 ns t proto)
  show ?case
  proof
    assume pl: "plainLevel t"
    with grouping_plain_tree(1) have gp: "groupPlurals ns t proto = Inr (t, proto)" by blast
    from 1 [OF gp refl] pl have "convertEntries ns t [] proto = Inr (rewriteProps t, proto)"
      by simp
    with gp show "convertTranslations ns t proto = Inr (rewriteProps t, proto)" by simp
  qed
next
  case (2 ns result proto)
  show ?case by simp
next
  case (3 ns key v es result proto)
  show ?case
  proof (intro impI)
    assume pl: "plainLevel ((key, v) # es)"
      and fr: "\<forall>k. hasOwn ((key, v) # es) k \<longrightarrow> \<not> hasOwn result k"
    from pl have pk: "parsePluralKey key = None \<and> key \<noteq> ''__proto__''" and ai: "arrayIndex key = None" and nk: "\<not> hasOwn es key"
      and pv: "plainTree v" and pe: "plainLevel es"
      by simp_all
    from fr have nr: "\<not> hasOwn result key" by simp
    have fr': "\<forall>k. hasOwn es k \<longrightarrow> \<not> hasOwn (result @ [(key, rewriteLeaves v)]) k"
      using fr nk by (auto simp: hasOwn_append)
    from "3.IH"(1) pv have cv: "convertValue ns v proto = Inr (rewriteLeaves v, proto)" by simp
    from "3.IH"(2) [OF cv refl] pe fr'
    have "convertEntries ns es (assign result key (rewriteLeaves v)) proto
            = Inr (assign result key (rewriteLeaves v) @ rewriteProps es, proto)"
      by (simp add: assign_fresh [OF pk ai nr])
    with cv show "convertEntries ns ((key, v) # es) result proto
            = Inr (result @ rewriteProps ((key, v) # es), proto)"
      by (simp add: assign_fresh [OF pk ai nr])
  qed
next
  case (4 ns s proto)
  show ?case by (simp add: leafText_def)
next
  case (5 ns sub proto)
  then show ?case by simp
qed simp_all

lemma keys_rewriteProps: "map fst (rewriteProps es) = map fst es"
  by (induction es) auto

subsection \<open>Values carried along a path\<close>

lemma heirWithin_Suc: "heirWithin n K k \<Longrightarrow> heirWithin (Suc n) K k"
proof (induction n arbitrary: k)
  case 0
  then show ?case by simp
next
  case (Suc n)
  from Suc.prems obtain b f where pk: "parsePluralKey k = Some (b, f)"
    and h: "b = K \<or> heirWithin n K b"
    by (auto split: option.splits)
  from h Suc.IH have "b = K \<or> heirWithin (Suc n) K b" by blast
  with pk show ?case
    unfolding heirWithin.simps(2) [of "Suc n" K k] by (simp del: heirWithin.simps)
qed

lemma heirWithin_member: "parsePluralKey k = Some (K, f) \<Longrightarrow> heirWithin (Suc n) K k"
  by simp

lemma heirWithin_base:
  "parsePluralKey k = Some (b, f) \<Longrightarrow> heirWithin n K b \<Longrightarrow> heirWithin (Suc n) K k"
  by simp

lemma no_heir_no_family:
  assumes "\<not> list_ex (heirWithin (Suc n) K) (map fst es)"
  shows "familyOf es K = []"
proof (rule ccontr)
  assume "familyOf es K \<noteq> []"
  then obtain f v where "(f, v) \<in> set (familyOf es K)" by (cases "familyOf es K") auto
  from familyOf_member [OF this] obtain k where
    k: "(k, v) \<in> set es" "parsePluralKey k = Some (K, f)" by blast
  from k(1) have "k \<in> set (map fst es)" by (auto simp: rev_image_eqI)
  with heirWithin_member [OF k(2), of n] assms show False by (auto simp: list_ex_iff)
qed

lemma storeForm_hasOwn:
  "storeForm ns gs p b f v = Inr (gs1, p1) \<Longrightarrow> hasOwn gs1 k \<Longrightarrow> hasOwn gs k \<or> k = b"
  by (auto simp: storeForm_def hasOwn_put split: slot.splits if_splits)

lemma scan_groups_hasOwn:
  "scanEntries ns es r gs p = Inr (r', gs', p') \<Longrightarrow> hasOwn gs' b
     \<Longrightarrow> hasOwn gs b \<or> familyOf es b \<noteq> []"
proof (induction es arbitrary: r gs p)
  case Nil
  then show ?case by simp
next
  case (Cons e es)
  obtain k v where e: "e = (k, v)" by (cases e)
  from Cons.prems(1) have pr: "scanEntries ns ((k, v) # es) r gs p = Inr (r', gs', p')"
    unfolding e .
  from pr show ?case
  proof (cases rule: scanEntries_Cons_cases)
    case (plural b' f gs1 p1)
    from Cons.IH [OF plural(3) Cons.prems(2)] storeForm_hasOwn [OF plural(2), of b]
    show ?thesis using plural(1) by (auto simp: e)
  next
    case (nested g p1)
    from Cons.IH [OF nested(4) Cons.prems(2)] nested(1) show ?thesis by (auto simp: e)
  next
    case plain
    from Cons.IH [OF plain(3) Cons.prems(2)] plain(1) show ?thesis by (auto simp: e)
  qed
qed

lemma scan_result_object:
  assumes "scanEntries ns es r gs p = Inr (r', gs', p')" "distinct (map fst es)"
    "(k, v) \<in> set es" "parsePluralKey k = None" "k \<noteq> ''__proto__''" "isPlainObject v"
  shows "\<exists>g q q'. groupPlurals ns (entriesOf v) q = Inr (g, q') \<and> map_of r' k = Some (JObject g)"
  using assms(1,2,3)
proof (induction es arbitrary: r gs p)
  case Nil
  then show ?case by simp
next
  case (Cons e es)
  obtain k' v' where e: "e = (k', v')" by (cases e)
  from Cons.prems(1) have pr: "scanEntries ns ((k', v') # es) r gs p = Inr (r', gs', p')"
    unfolding e .
  from Cons.prems(2) have d: "distinct (map fst es)" and nk: "\<not> hasOwn es k'"
    by (auto simp: e hasOwn_def)
  show ?case
  proof (cases "(k, v) = (k', v')")
    case True
    then have kv: "k' = k" "v' = v" by simp_all
    from pr show ?thesis
    proof (cases rule: scanEntries_Cons_cases)
      case (plural b f gs1 p1)
      with assms(4) kv show ?thesis by simp
    next
      case (nested g p1)
      from scan_result_other [OF nested(4)] nk kv assms(5)
      have "map_of r' k = Some (JObject g)" by (simp add: map_of_assign)
      with nested(3) kv show ?thesis by auto
    next
      case plain
      with assms(6) kv show ?thesis by simp
    qed
  next
    case False
    with Cons.prems(3) have m: "(k, v) \<in> set es" by (auto simp: e)
    from pr show ?thesis
    proof (cases rule: scanEntries_Cons_cases)
      case (plural b f gs1 p1)
      show ?thesis by (rule Cons.IH [OF plural(3) d m])
    next
      case (nested g p1)
      show ?thesis by (rule Cons.IH [OF nested(4) d m])
    next
      case plain
      show ?thesis by (rule Cons.IH [OF plain(3) d m])
    qed
  qed
qed

lemma groupPlurals_kept:
  assumes "groupPlurals ns t p = Inr (g, p')" "distinct (map fst t)" "(k, v) \<in> set t"
    "parsePluralKey k = None" "k \<noteq> ''__proto__''" "familyOf t k = []"
  shows "\<not> isPlainObject v \<Longrightarrow> map_of g k = Some v"
    and "isPlainObject v \<Longrightarrow>
           \<exists>g' q q'. groupPlurals ns (entriesOf v) q = Inr (g', q') \<and> map_of g k = Some (JObject g')"
proof -
  from assms(1) obtain r gs where sc: "scanEntries ns t [] [] p = Inr (r, gs, p')"
    and em: "emitPlurals ns gs r = Inr g"
    by (rule groupPlurals_cases)
  from scan_groups_hasOwn [OF sc, of k] assms(6) have "\<not> hasOwn gs k" by auto
  note eq = emit_other [OF em this]
  from assms(4,5) have pk: "parsePluralKey k = None \<and> k \<noteq> ''__proto__''" by simp
  show "map_of g k = Some v" if "\<not> isPlainObject v"
    using eq scan_result_plain [OF sc assms(2,3) pk that] by simp
  show "\<exists>g' q q'. groupPlurals ns (entriesOf v) q = Inr (g', q') \<and> map_of g k = Some (JObject g')"
    if "isPlainObject v"
    using eq scan_result_object [OF sc assms(2,3,4,5) that] by simp
qed

lemma groupPlurals_key_origin:
  assumes "groupPlurals ns t p = Inr (g, p')" "hasOwn g k"
  shows "(hasOwn t k \<and> parsePluralKey k = None) \<or> familyOf t k \<noteq> []"
proof -
  from assms(1) obtain r gs where sc: "scanEntries ns t [] [] p = Inr (r, gs, p')"
    and em: "emitPlurals ns gs r = Inr g"
    by (rule groupPlurals_cases)
  from assms(2) emit_hasOwn [OF em, of k] have "hasOwn r k \<or> hasOwn gs k" by auto
  then show ?thesis
  proof
    assume "hasOwn r k"
    with scan_result_keys [OF sc, of k] show ?thesis by simp
  next
    assume "hasOwn gs k"
    with scan_groups_hasOwn [OF sc, of k] show ?thesis by simp
  qed
qed

lemma groupPlurals_no_heir:
  assumes "groupPlurals ns t p = Inr (g, p')"
    "\<not> list_ex (heirWithin (Suc n) K) (map fst t)"
  shows "\<not> list_ex (heirWithin n K) (map fst g)"
proof
  assume "list_ex (heirWithin n K) (map fst g)"
  then obtain m where m: "hasOwn g m" "heirWithin n K m" by (auto simp: list_ex_iff hasOwn_def)
  from groupPlurals_key_origin [OF assms(1) m(1)]
  show False
  proof
    assume "hasOwn t m \<and> parsePluralKey m = None"
    with heirWithin_Suc [OF m(2)] assms(2) show False by (auto simp: list_ex_iff hasOwn_def)
  next
    assume "familyOf t m \<noteq> []"
    then obtain f v where "(f, v) \<in> set (familyOf t m)" by (cases "familyOf t m") auto
    from familyOf_member [OF this] obtain k where
      k: "(k, v) \<in> set t" "parsePluralKey k = Some (m, f)" by blast
    from k(1) have "k \<in> set (map fst t)" by (auto simp: rev_image_eqI)
    with heirWithin_base [OF k(2) m(2)] assms(2) show False by (auto simp: list_ex_iff)
  qed
qed

lemma rewriteLeaves_leaf:
  "\<not> isPlainObject v \<Longrightarrow> convertValue ns v p = Inr (rewriteLeaves v, p)"
  by (cases v) (simp_all add: isPlainObject_def leafText_def)

lemma valueAt_leaf: "\<not> isPlainObject w \<Longrightarrow> valueAt w ks = Some v \<Longrightarrow> ks = [] \<and> w = v"
  by (cases ks) auto

lemma grouped_leaf_path:
  "groupPlurals ns t p = Inr (g, p') \<Longrightarrow> freePath (Suc n) (JObject t) path \<Longrightarrow>
     valueAt (JObject t) path = Some v \<Longrightarrow> \<not> isPlainObject v \<Longrightarrow>
     freePath n (JObject g) path \<and> valueAt (JObject g) path = Some v"
proof (induction path arbitrary: t g p p' n)
  case Nil
  from Nil.prems(3,4) have False by (auto simp: isPlainObject_def)
  then show ?case ..
next
  case (Cons k ks)
  from Cons.prems(2) have d: "distinct (map fst t)"
    and pk: "parsePluralKey k = None" and np: "k \<noteq> ''__proto__''"
    and nh: "\<not> list_ex (heirWithin (Suc n) k) (map fst t)"
    by simp_all
  from Cons.prems(3) obtain w where w: "map_of t k = Some w" and vw: "valueAt w ks = Some v"
    by (auto split: option.splits)
  from Cons.prems(2) w have cw: "freePath (Suc (Suc n)) w ks" by simp
  from w have mem: "(k, w) \<in> set t" by (rule map_of_SomeD)
  note nf = no_heir_no_family [OF nh]
  note ng = groupPlurals_no_heir [OF Cons.prems(1) nh]
  note dg = groupPlurals_distinct [OF Cons.prems(1)]
  show ?case
  proof (cases "isPlainObject w")
    case False
    from valueAt_leaf [OF False vw] have ks: "ks = []" and wa: "w = v" by simp_all
    from groupPlurals_kept(1) [OF Cons.prems(1) d mem pk np nf False] wa
    have "map_of g k = Some v" by simp
    with ks dg pk np ng show ?thesis by simp
  next
    case True
    from groupPlurals_kept(2) [OF Cons.prems(1) d mem pk np nf True] obtain g' q q' where
      g': "groupPlurals ns (entriesOf w) q = Inr (g', q')" and m: "map_of g k = Some (JObject g')"
      by blast
    from cw True have cw': "freePath (Suc (Suc n)) (JObject (entriesOf w)) ks"
      by (simp add: JObject_entriesOf)
    from vw True have vw': "valueAt (JObject (entriesOf w)) ks = Some v"
      by (simp add: JObject_entriesOf)
    from Cons.IH [OF g' cw' vw' Cons.prems(4)]
    have "freePath (Suc n) (JObject g') ks \<and> valueAt (JObject g') ks = Some v" .
    with m dg pk np ng show ?thesis by simp
  qed
qed

lemma converted_leaf_path:
  "convertTranslations ns t p = Inr (out, p') \<Longrightarrow> freePath (Suc 0) (JObject t) path \<Longrightarrow>
     valueAt (JObject t) path = Some v \<Longrightarrow> \<not> isPlainObject v \<Longrightarrow>
     valueAt (JObject out) path = Some (rewriteLeaves v)"
proof (induction path arbitrary: t out p p')
  case Nil
  from Nil.prems(3,4) have False by (auto simp: isPlainObject_def)
  then show ?case ..
next
  case (Cons k ks)
  from Cons.prems(1) obtain g p1 where gp: "groupPlurals ns t p = Inr (g, p1)"
    and ce: "convertEntries ns g [] p1 = Inr (out, p')"
    by (rule convertTranslations_cases)
  from grouped_leaf_path [OF gp Cons.prems(2,3,4)]
  have cg: "freePath 0 (JObject g) (k # ks)" and vg: "valueAt (JObject g) (k # ks) = Some v"
    by blast+
  from vg obtain w where w: "map_of g k = Some w" and vw: "valueAt w ks = Some v"
    by (auto split: option.splits)
  from cg w have cw: "freePath (Suc 0) w ks" and np: "k \<noteq> ''__proto__''"
    by simp_all
  from w have mem: "(k, w) \<in> set g" by (rule map_of_SomeD)
  from convertEntries_value [OF ce groupPlurals_distinct [OF gp] mem np] obtain w' q q' where
    cv: "convertValue ns w q = Inr (w', q')" and mo: "map_of out k = Some w'"
    by blast
  show ?case
  proof (cases "isPlainObject w")
    case False
    from valueAt_leaf [OF False vw] have ks: "ks = []" and wv: "w = v" by simp_all
    from cv rewriteLeaves_leaf [OF False, of ns q] have "w' = rewriteLeaves w" by simp
    with mo ks wv show ?thesis by simp
  next
    case True
    then obtain sub where sub: "w = JObject sub" by (cases w) (auto simp: isPlainObject_def)
    from cv sub obtain r where ct: "convertTranslations ns sub q = Inr (r, q')"
      and w': "w' = JObject r"
      by (auto simp del: convertTranslations.simps split: sum.splits)
    from cw vw sub have cs: "freePath (Suc 0) (JObject sub) ks"
      and vs: "valueAt (JObject sub) ks = Some v"
      by simp_all
    from Cons.IH [OF ct cs vs Cons.prems(4)] have "valueAt (JObject r) ks = Some (rewriteLeaves v)" .
    with mo w' show ?thesis by simp
  qed
qed

subsection \<open>Nested levels\<close>









lemma grouped_level:
  "groupPlurals ns t [] = Inr (g, []) \<Longrightarrow> freePath (Suc n) (JObject t) path \<Longrightarrow>
     valueAt (JObject t) path = Some (JObject L) \<Longrightarrow>
     \<exists>gL. groupPlurals ns L [] = Inr (gL, []) \<and> valueAt (JObject g) path = Some (JObject gL)
          \<and> freePath n (JObject g) path"
proof (induction path arbitrary: t g n)
  case Nil
  then show ?case by simp
next
  case (Cons k ks)
  from Cons.prems(2) have d: "distinct (map fst t)"
    and pk: "parsePluralKey k = None \<and> k \<noteq> ''__proto__''"
    and nh: "\<not> list_ex (heirWithin (Suc n) k) (map fst t)"
    by simp_all
  from Cons.prems(3) obtain w where w: "map_of t k = Some w" and vw: "valueAt w ks = Some (JObject L)"
    by (auto split: option.splits)
  from Cons.prems(2) w have cw: "freePath (Suc (Suc n)) w ks" by simp
  from w have mem: "(k, w) \<in> set t" by (rule map_of_SomeD)
  note nf = no_heir_no_family [OF nh]
  note ng = groupPlurals_no_heir [OF Cons.prems(1) nh]
  note dg = groupPlurals_distinct [OF Cons.prems(1)]
  from vw have ob: "isPlainObject w" by (cases ks) (auto split: if_splits)
  from groupPlurals_nested [OF Cons.prems(1) d mem pk ob nf] obtain g' where
    g': "groupPlurals ns (entriesOf w) [] = Inr (g', [])" and m: "map_of g k = Some (JObject g')"
    by blast
  from Cons.IH [OF g', of "Suc n"] cw vw ob obtain gL where
    "groupPlurals ns L [] = Inr (gL, [])" "valueAt (JObject g') ks = Some (JObject gL)"
    "freePath (Suc n) (JObject g') ks"
    by (auto simp: JObject_entriesOf)
  with m dg pk ng show ?case by simp
qed

lemma converted_level:
  "convertTranslations ns t [] = Inr (out, []) \<Longrightarrow> freePath (Suc 0) (JObject t) path \<Longrightarrow>
     valueAt (JObject t) path = Some (JObject L) \<Longrightarrow>
     \<exists>M outL. regroup ns (length path) L M \<and> convertTranslations ns M [] = Inr (outL, [])
        \<and> valueAt (JObject out) path = Some (JObject outL)"
proof (induction path arbitrary: t out L)
  case Nil
  then show ?case by (simp del: convertTranslations.simps)
next
  case (Cons k ks)
  from Cons.prems(1) obtain g where gp: "groupPlurals ns t [] = Inr (g, [])"
    and ce: "convertEntries ns g [] [] = Inr (out, [])"
    by (rule convertTranslations_clean)
  from grouped_level [OF gp Cons.prems(2,3)] obtain gL where
    gl: "groupPlurals ns L [] = Inr (gL, [])"
    and vg: "valueAt (JObject g) (k # ks) = Some (JObject gL)"
    and cg: "freePath 0 (JObject g) (k # ks)"
    by blast
  from vg obtain w where w: "map_of g k = Some w" and vw: "valueAt w ks = Some (JObject gL)"
    by (auto split: option.splits)
  from cg w have cw: "freePath (Suc 0) w ks" and np: "k \<noteq> ''__proto__''"
    by simp_all
  from w have mem: "(k, w) \<in> set g" by (rule map_of_SomeD)
  from convertEntries_value_clean [OF ce groupPlurals_distinct [OF gp] mem np] obtain w' where
    cv: "convertValue ns w [] = Inr (w', [])" and mo: "map_of out k = Some w'"
    by blast
  from vw have ob: "isPlainObject w" by (cases ks) (auto split: if_splits)
  then obtain sub where sub: "w = JObject sub" by (cases w) (auto simp: isPlainObject_def)
  from cv sub obtain r where ct: "convertTranslations ns sub [] = Inr (r, [])"
    and w': "w' = JObject r"
    by (auto simp del: convertTranslations.simps split: sum.splits)
  from cw vw sub have cs: "freePath (Suc 0) (JObject sub) ks"
    and vs: "valueAt (JObject sub) ks = Some (JObject gL)"
    by simp_all
  from Cons.IH [OF ct cs vs] obtain M outL where
    rg: "regroup ns (length ks) gL M" and cm: "convertTranslations ns M [] = Inr (outL, [])"
    and vo: "valueAt (JObject r) ks = Some (JObject outL)"
    by blast
  from rg gl have "regroup ns (length (k # ks)) L M" by simp
  moreover from vo mo w' have "valueAt (JObject out) (k # ks) = Some (JObject outL)" by simp
  ultimately show ?case using cm by blast
qed




subsection \<open>Nesting references\<close>

lemma matchNesting_iff:
  "matchNesting s = Some (key, rest) \<longleftrightarrow> spec_reference s key rest"
proof
  assume m: "matchNesting s = Some (key, rest)"
  then obtain t where s: "s = CHR ''$'' # CHR ''t'' # CHR ''('' # t"
    by (auto simp: matchNesting_def split: list.splits if_splits)
  from m s have c: "key = takeWhile (\<lambda>c. c \<noteq> CHR '')'') t" and ne: "key \<noteq> []"
    and d: "dropWhile (\<lambda>c. c \<noteq> CHR '')'') t = CHR '')'' # rest"
    by (auto simp: matchNesting_def Let_def split: list.splits if_splits)
  have "t = takeWhile (\<lambda>c. c \<noteq> CHR '')'') t @ dropWhile (\<lambda>c. c \<noteq> CHR '')'') t" by simp
  then have "t = key @ CHR '')'' # rest" using c d by simp
  moreover have "CHR '')'' \<notin> set key" using c by (auto dest: set_takeWhileD)
  ultimately show "spec_reference s key rest"
    using s ne by (simp add: spec_reference_def)
next
  assume "spec_reference s key rest"
  then have s: "s = ''$t('' @ key @ '')'' @ rest" and ne: "key \<noteq> []"
    and nc: "CHR '')'' \<notin> set key"
    by (simp_all add: spec_reference_def)
  show "matchNesting s = Some (key, rest)"
    unfolding s using ne
    by (simp add: matchNesting_def takeWhile_until [OF nc] dropWhile_until [OF nc])
qed

lemma convertNesting_reference:
  "spec_reference s key rest \<Longrightarrow>
     convertNesting s = ''[REF:'' @ key @ '']'' @ convertNesting rest"
proof -
  assume p: "spec_reference s key rest"
  then obtain c cs where s: "s = c # cs" by (auto simp: spec_reference_def)
  from p have "matchNesting (c # cs) = Some (key, rest)"
    unfolding s by (simp only: matchNesting_iff)
  then show ?thesis unfolding s by simp
qed

lemma convertNesting_no_reference:
  "(\<nexists>key rest. spec_reference (c # cs) key rest) \<Longrightarrow>
     convertNesting (c # cs) = c # convertNesting cs"
proof -
  assume n: "\<nexists>key rest. spec_reference (c # cs) key rest"
  have "matchNesting (c # cs) = None"
  proof (cases "matchNesting (c # cs)")
    case None
    then show ?thesis .
  next
    case (Some kr)
    obtain key rest where "kr = (key, rest)" by (cases kr)
    with Some have "spec_reference (c # cs) key rest"
      by (simp only: matchNesting_iff [symmetric])
    with n show ?thesis by blast
  qed
  then show ?thesis by simp
qed

lemma unclosed_append: "unclosed ys \<Longrightarrow> unclosed (xs @ ys)"
  by (induction xs) simp_all

lemma matchNesting_prefix: "matchNesting s = Some (key, rest) \<Longrightarrow> prefix ''$t('' s"
  by (auto simp: matchNesting_def split: list.splits if_splits)

lemma matchNesting_append_closed:
  assumes "prefix ''$t('' x" "CHR '')'' \<in> set (tl x)"
  shows "matchNesting (x @ z) =
           (case matchNesting x of None \<Rightarrow> None | Some (k, r) \<Rightarrow> Some (k, r @ z))"
proof -
  from assms(1) obtain t where x: "x = CHR ''$'' # CHR ''t'' # CHR ''('' # t"
    by (auto simp: prefix_def)
  from assms(2) x have "\<exists>c \<in> set t. \<not> c \<noteq> CHR '')''" by auto
  then have tw: "takeWhile (\<lambda>c. c \<noteq> CHR '')'') (t @ z) = takeWhile (\<lambda>c. c \<noteq> CHR '')'') t"
    and dw: "dropWhile (\<lambda>c. c \<noteq> CHR '')'') (t @ z) = dropWhile (\<lambda>c. c \<noteq> CHR '')'') t @ z"
    by (simp_all add: takeWhile_append1 dropWhile_append1)
  from \<open>\<exists>c \<in> set t. \<not> c \<noteq> CHR '')''\<close>
  obtain y ys where dn: "dropWhile (\<lambda>c. c \<noteq> CHR '')'') t = y # ys"
    by (cases "dropWhile (\<lambda>c. c \<noteq> CHR '')'') t") (auto simp: dropWhile_eq_Nil_conv)
  show ?thesis
    unfolding x by (simp add: matchNesting_def tw dw dn Let_def)
qed

lemma matchNesting_append_other:
  assumes "\<not> prefix ''$t('' x" "x \<noteq> []"
  shows "matchNesting (x @ CHR ''}'' # y) = None"
proof (cases x)
  case Nil
  with assms(2) show ?thesis by simp
next
  case (Cons a x1)
  show ?thesis
  proof (cases x1)
    case Nil
    with Cons show ?thesis by (simp add: matchNesting_def split: list.splits)
  next
    case (Cons b x2)
    note c2 = this
    show ?thesis
    proof (cases x2)
      case Nil
      with \<open>x = a # x1\<close> c2 show ?thesis by (simp add: matchNesting_def split: list.splits)
    next
      case (Cons c x3)
      with \<open>x = a # x1\<close> c2 assms(1) show ?thesis by (auto simp: matchNesting_def)
    qed
  qed
qed

lemma convertNesting_closing:
  "\<not> unclosed x \<Longrightarrow>
     convertNesting (x @ CHR ''}'' # y) = convertNesting x @ CHR ''}'' # convertNesting y"
proof (induction x rule: convertNesting.induct)
  case 1
  show ?case by (simp add: convertNesting_other_char del: convertNesting.simps(2))
next
  case (2 c cs)
  show ?case
  proof (cases "prefix ''$t('' (c # cs)")
    case True
    with "2.prems" have cl: "CHR '')'' \<in> set (tl (c # cs))" and nu: "\<not> unclosed cs" by simp_all
    note ma = matchNesting_append_closed [OF True cl, of "CHR ''}'' # y"]
    show ?thesis
    proof (cases "matchNesting (c # cs)")
      case None
      with ma have "matchNesting ((c # cs) @ CHR ''}'' # y) = None" by simp
      with None "2.IH"(1) [OF None nu] show ?thesis by simp
    next
      case (Some kr)
      obtain key rest where kr: "kr = (key, rest)" by (cases kr)
      from Some kr have m: "matchNesting (c # cs) = Some (key, rest)" by simp
      with ma have m': "matchNesting ((c # cs) @ CHR ''}'' # y) = Some (key, rest @ CHR ''}'' # y)"
        by simp
      from matchNesting_decomp [OF m] have "c # cs = (''$t('' @ key @ '')'') @ rest" by simp
      with "2.prems" unclosed_append [of rest "''$t('' @ key @ '')''"]
      have "\<not> unclosed rest" by auto
      from "2.IH"(2) [OF m refl this] m m' show ?thesis by simp
    qed
  next
    case False
    have n: "matchNesting (c # cs) = None"
    proof (cases "matchNesting (c # cs)")
      case None
      then show ?thesis .
    next
      case (Some kr)
      obtain key rest where "kr = (key, rest)" by (cases kr)
      with Some have "matchNesting (c # cs) = Some (key, rest)" by simp
      from matchNesting_prefix [OF this] False show ?thesis by simp
    qed
    from matchNesting_append_other [OF False, of y]
    have n': "matchNesting ((c # cs) @ CHR ''}'' # y) = None" by simp
    from "2.prems" have "\<not> unclosed cs" by simp
    from "2.IH"(1) [OF n this] n n' show ?thesis by simp
  qed
qed

lemma joinWith_map:
  assumes "\<And>x rest. x \<in> set xs \<Longrightarrow> h (B x @ rest) = B' x @ h rest"
    and "\<And>rest. h ('' '' @ rest) = '' '' @ h rest"
  shows "h (joinWith '' '' (map B xs) @ rest) = joinWith '' '' (map B' xs) @ h rest"
  using assms(1)
proof (induction xs)
  case Nil
  show ?case by simp
next
  case (Cons x xs)
  show ?case
  proof (cases xs)
    case Nil
    with Cons.prems [of x rest] show ?thesis by simp
  next
    case (Cons y ys)
    have ih: "h (joinWith '' '' (map B xs) @ rest) = joinWith '' '' (map B' xs) @ h rest"
      by (rule Cons.IH) (simp add: Cons.prems)
    have "h (joinWith '' '' (map B (x # xs)) @ rest)
            = h (B x @ ('' '' @ joinWith '' '' (map B xs) @ rest))"
      by (simp add: Cons)
    also have "\<dots> = B' x @ h ('' '' @ joinWith '' '' (map B xs) @ rest)"
      by (rule Cons.prems) simp
    also have "\<dots> = B' x @ '' '' @ joinWith '' '' (map B' xs) @ h rest"
      by (simp only: assms(2) ih)
    finally show ?thesis by (simp add: Cons)
  qed
qed

lemma convertNesting_branch:
  assumes "CHR ''$'' \<notin> set F" "\<not> unclosed s"
  shows "convertNesting ((F @ ''{'' @ s @ ''}'') @ rest)
           = (F @ ''{'' @ convertNesting s @ ''}'') @ convertNesting rest"
proof -
  have nd: "CHR ''$'' \<notin> set (F @ ''{'')" using assms(1) by simp
  have "convertNesting ((F @ ''{'' @ s @ ''}'') @ rest)
          = (F @ ''{'') @ convertNesting (s @ CHR ''}'' # rest)"
    using convertNesting_no_dollar [OF nd, of "s @ CHR ''}'' # rest"] by simp
  also have "convertNesting (s @ CHR ''}'' # rest) = convertNesting s @ CHR ''}'' # convertNesting rest"
    by (rule convertNesting_closing [OF assms(2)])
  finally show ?thesis by simp
qed

lemma convertInterpolation_identity: "\<not> hasPlaceholder s \<Longrightarrow> convertInterpolation s = s"
proof (induction s)
  case Nil
  show ?case by simp
next
  case (Cons c cs)
  from Cons.prems have n: "matchInterpolation (c # cs) = None" and h: "\<not> hasPlaceholder cs"
    by (simp_all split: option.splits)
  from n Cons.IH [OF h] show ?case by simp
qed

lemma leafText_family:
  assumes "\<not> hasPlaceholder (''{count, plural, '' @ joinWith '' '' (map branch fam) @ ''}'')"
    and "\<forall>fv \<in> set fam. fst fv \<in> set pluralForms
           \<and> \<not> unclosed (convertInterpolation (textOf (snd fv)))"
  shows "leafText (''{count, plural, '' @ joinWith '' '' (map branch fam) @ ''}'')
           = ''{count, plural, '' @
             joinWith '' ''
               (map (\<lambda>fv. icuForm (fst fv) @ ''{''
                       @ convertNesting (convertInterpolation (textOf (snd fv))) @ ''}'') fam)
             @ ''}''"
proof -
  let ?B' = "\<lambda>fv. icuForm (fst fv) @ ''{''
               @ convertNesting (convertInterpolation (textOf (snd fv))) @ ''}''"
  have cn: "convertNesting (joinWith '' '' (map branch fam) @ ''}'')
              = joinWith '' '' (map ?B' fam) @ convertNesting ''}''"
  proof (rule joinWith_map)
    fix fv rest
    assume "fv \<in> set fam"
    with assms(2) icuForm_chars have "CHR ''$'' \<notin> set (icuForm (fst fv))"
      and "\<not> unclosed (convertInterpolation (textOf (snd fv)))" by auto
    from convertNesting_branch [OF this]
    show "convertNesting (branch fv @ rest) = ?B' fv @ convertNesting rest"
      by (simp only: branch_def)
  next
    fix rest
    show "convertNesting ('' '' @ rest) = '' '' @ convertNesting rest"
      by (simp add: convertNesting_other_char del: convertNesting.simps)
  qed
  have e2: "convertNesting ''}'' = ''}''" by (simp add: matchNesting_def)
  have hd: "convertNesting (''{count, plural, '' @ x) = ''{count, plural, '' @ convertNesting x" for x
    by (rule convertNesting_no_dollar) simp
  show ?thesis
    by (simp only: leafText_def convertInterpolation_identity [OF assms(1)] hd cn e2)
qed

subsection \<open>Recorded families\<close>

lemma converted_groups:
  assumes "convertTranslations ns t p = Inr (out, p')"
  shows "\<exists>r gs p1 g. scanEntries ns t [] [] p = Inr (r, gs, p1) \<and> emitPlurals ns gs r = Inr g
           \<and> convertEntries ns g [] p1 = Inr (out, p')
           \<and> (\<forall>b forms. (b, forms) \<in> set gs \<longrightarrow>
                 (\<exists>S. createICUPlural ns forms = Inr S \<and> map_of g b = Some (JString S)
                    \<and> map_of out b = Some (JString (convertNesting (convertInterpolation S)))))"
proof -
  from assms obtain g p1 where gp: "groupPlurals ns t p = Inr (g, p1)"
    and ce: "convertEntries ns g [] p1 = Inr (out, p')"
    by (rule convertTranslations_cases)
  from gp obtain r gs where sc: "scanEntries ns t [] [] p = Inr (r, gs, p1)"
    and em: "emitPlurals ns gs r = Inr g"
    by (rule groupPlurals_cases)
  have dg: "distinct (map fst gs)" using scan_groups_distinct [OF sc] by simp
  have np: "\<not> hasOwn gs ''__proto__''" using scan_groups_no_proto [OF sc] by simp
  have "\<exists>S. createICUPlural ns forms = Inr S \<and> map_of g b = Some (JString S)
            \<and> map_of out b = Some (JString (convertNesting (convertInterpolation S)))"
    if mem: "(b, forms) \<in> set gs" for b forms
  proof -
    from in_set_hasOwn [OF mem] np have nb: "b \<noteq> ''__proto__''" by auto
    from emit_value [OF em dg mem nb] obtain S where
      c: "createICUPlural ns forms = Inr S" and m: "map_of g b = Some (JString S)"
      by blast
    from m have "(b, JString S) \<in> set g" by (rule map_of_SomeD)
    from convertEntries_value [OF ce groupPlurals_distinct [OF gp] this nb]
    have "map_of out b = Some (JString (convertNesting (convertInterpolation S)))" by auto
    with c m show ?thesis by blast
  qed
  with sc em ce show ?thesis by blast
qed

lemma single_placeholder_branch:
  assumes "f \<in> set pluralForms" "x \<noteq> []" "CHR ''}'' \<notin> set x" "CHR ''$'' \<notin> set x"
  shows "createICUPlural ns [(f, JString (''{{'' @ x @ ''}}''))] =
           Inr (''{count, plural, '' @ icuForm f @ ''{{'' @ x @ ''}}}'')"
    and "convertNesting (convertInterpolation (''{count, plural, '' @ icuForm f @ ''{{'' @ x @ ''}}}''))
           = ''{count, plural, '' @ icuForm f @ ''{'' @ x @ ''}}''"
proof -
  have p: "spec_placeholder (''{{'' @ x @ ''}}'' @ rest) x rest" for rest
    using assms(2,3) by (simp add: spec_placeholder_def)
  from convertInterpolation_at_placeholder [OF p [of "[]"]]
  have c1: "convertInterpolation (''{{'' @ x @ ''}}'') = ''{'' @ x @ ''}''" by simp
  show "createICUPlural ns [(f, JString (''{{'' @ x @ ''}}''))] =
           Inr (''{count, plural, '' @ icuForm f @ ''{{'' @ x @ ''}}}'')"
    using c1 by (simp add: createICUPlural_def convertedText_def)
  from icuForm_chars [OF assms(1)] have nb: "CHR ''{'' \<notin> set (icuForm f)"
    and nd: "CHR ''$'' \<notin> set (icuForm f)" by simp_all
  have "convertInterpolation (icuForm f @ ''{{'' @ x @ ''}}}'')
          = icuForm f @ convertInterpolation (''{{'' @ x @ ''}}'' @ ''}'')"
    using convertInterpolation_no_brace [OF nb, of "''{{'' @ x @ ''}}}''"] by simp
  also have "convertInterpolation (''{{'' @ x @ ''}}'' @ ''}'') = ''{'' @ x @ ''}'' @ convertInterpolation ''}''"
    by (rule convertInterpolation_at_placeholder [OF p])
  also have "convertInterpolation ''}'' = ''}''" by (simp add: matchInterpolation_def)
  finally have ci: "convertInterpolation (icuForm f @ ''{{'' @ x @ ''}}}'') = icuForm f @ ''{'' @ x @ ''}}''"
    by simp
  have "CHR ''$'' \<notin> set (icuForm f @ ''{'' @ x @ ''}}'')" using nd assms(4) by simp
  then have cn: "convertNesting (icuForm f @ ''{'' @ x @ ''}}'') = icuForm f @ ''{'' @ x @ ''}}''"
    by (rule convertNesting_plain)
  have "leafText (''{count, plural, '' @ (icuForm f @ ''{{'' @ x @ ''}}}''))
          = ''{count, plural, '' @ leafText (icuForm f @ ''{{'' @ x @ ''}}}'')"
    by (rule leafText_header)
  also have "leafText (icuForm f @ ''{{'' @ x @ ''}}}'') = icuForm f @ ''{'' @ x @ ''}}''"
    by (simp only: leafText_def ci cn)
  finally show "convertNesting (convertInterpolation (''{count, plural, '' @ icuForm f @ ''{{'' @ x @ ''}}}''))
           = ''{count, plural, '' @ icuForm f @ ''{'' @ x @ ''}}''"
    by (simp only: leafText_def append_assoc)
qed

subsection \<open>One family of a nested level\<close>

lemma entries_leaf_path:
  assumes "convertEntries ns g [] p = Inr (out, p')" "distinct (map fst g)"
    "k \<noteq> ''__proto__''" "map_of g k = Some w" "freePath (Suc 0) w ks"
    "valueAt w ks = Some v" "\<not> isPlainObject v"
  shows "valueAt (JObject out) (k # ks) = Some (rewriteLeaves v)"
proof -
  from assms(4) have mem: "(k, w) \<in> set g" by (rule map_of_SomeD)
  from convertEntries_value [OF assms(1,2) mem assms(3)] obtain w' q q' where
    cv: "convertValue ns w q = Inr (w', q')" and mo: "map_of out k = Some w'"
    by blast
  show ?thesis
  proof (cases "isPlainObject w")
    case False
    from valueAt_leaf [OF False assms(6)] have ks: "ks = []" and wv: "w = v" by simp_all
    from cv rewriteLeaves_leaf [OF False, of ns q] have "w' = rewriteLeaves w" by simp
    with mo ks wv show ?thesis by simp
  next
    case True
    then obtain sub where sub: "w = JObject sub" by (cases w) (auto simp: isPlainObject_def)
    from cv sub obtain r where ct: "convertTranslations ns sub q = Inr (r, q')"
      and w': "w' = JObject r"
      by (auto simp del: convertTranslations.simps split: sum.splits)
    from assms(5,6) sub have cs: "freePath (Suc 0) (JObject sub) ks"
      and vs: "valueAt (JObject sub) ks = Some v"
      by simp_all
    from converted_leaf_path [OF ct cs vs assms(7)] mo w' show ?thesis by simp
  qed
qed

lemma valueAt_append:
  "valueAt v path = Some w \<Longrightarrow> valueAt v (path @ ks) = valueAt w ks"
proof (induction path arbitrary: v)
  case Nil
  then show ?case by simp
next
  case (Cons k path)
  then show ?case by (auto split: option.splits if_splits)
qed

lemma freePath_append:
  "freePath n v path \<Longrightarrow> valueAt v path = Some w \<Longrightarrow> freePath (n + length path) w ks \<Longrightarrow>
     freePath n v (path @ ks)"
proof (induction path arbitrary: v n)
  case Nil
  then show ?case by simp
next
  case (Cons k path)
  from Cons.prems(2) obtain u where u: "map_of (entriesOf v) k = Some u"
    and vu: "valueAt u path = Some w" and ob: "isPlainObject v"
    by (auto split: option.splits if_splits)
  from Cons.prems(1) u have fu: "freePath (Suc n) u path" by simp
  from Cons.prems(3) have "freePath (Suc n + length path) w ks" by simp
  from Cons.IH [OF fu vu this] Cons.prems(1) u show ?case by simp
qed

lemma grouped_no_deep_heir:
  assumes "groupPlurals ns L p = Inr (g, p')"
    "\<not> list_ex (deepHeir n K) (map fst L)"
  shows "\<not> list_ex (heirWithin n K) (map fst g)"
proof
  assume "list_ex (heirWithin n K) (map fst g)"
  then obtain m where m: "hasOwn g m" "heirWithin n K m" by (auto simp: list_ex_iff hasOwn_def)
  from m(2) have "parsePluralKey m \<noteq> None" by (cases n) (auto split: option.splits)
  with groupPlurals_key_origin [OF assms(1) m(1)] have "familyOf L m \<noteq> []" by simp
  then obtain f v where "(f, v) \<in> set (familyOf L m)" by (cases "familyOf L m") auto
  from familyOf_member [OF this] obtain k where
    k: "(k, v) \<in> set L" "parsePluralKey k = Some (m, f)" by blast
  from k(1) have "k \<in> set (map fst L)" by (auto simp: rev_image_eqI)
  moreover from k(2) m(2) have "deepHeir n K k" by (simp add: deepHeir_def)
  ultimately show False using assms(2) by (auto simp: list_ex_iff)
qed

lemma family_output:
  assumes run: "convertTranslations ns t [] = Inr (out, [])"
    and path: "freePath (Suc 0) (JObject t) path"
    and lvl: "valueAt (JObject t) path = Some (JObject L)"
    and d: "distinct (map fst L)"
    and st: "path = [] \<or> parsePluralKey K = None"
    and nh: "\<not> list_ex (deepHeir (length path) K) (map fst L)"
    and fam: "familyOf L K \<noteq> []"
    and nm: "K \<notin> set objectPrototypeMethods"
  shows "\<exists>S. createICUPlural ns (familyOf L K) = Inr S
           \<and> valueAt (JObject out) (path @ [K]) = Some (JString (leafText S))"
proof -
  from run obtain g where gp: "groupPlurals ns t [] = Inr (g, [])"
    and ce: "convertEntries ns g [] [] = Inr (out, [])"
    by (rule convertTranslations_clean)
  from grouped_level [OF gp path lvl] obtain gL where
    gl: "groupPlurals ns L [] = Inr (gL, [])"
    and vg: "valueAt (JObject g) path = Some (JObject gL)"
    and fg: "freePath 0 (JObject g) path"
    by blast
  from groupPlurals_family [OF gl nm fam] obtain S where
    c: "createICUPlural ns (familyOf L K) = Inr S" and m: "map_of gL K = Some (JString S)"
    by (auto simp: forms_of_distinct_level [OF d])
  have nl: "\<not> isPlainObject (JString S)" by (simp add: isPlainObject_def)
  from groupPlurals_no_proto [OF gl] map_of_Some_hasOwn [OF m] have np: "K \<noteq> ''__proto__''"
    by auto
  have "valueAt (JObject out) (path @ [K]) = Some (rewriteLeaves (JString S))"
  proof (cases path)
    case Nil
    with vg have "gL = g" by simp
    with m have mg: "map_of g K = Some (JString S)" by simp
    have "valueAt (JObject out) (K # []) = Some (rewriteLeaves (JString S))"
      by (rule entries_leaf_path [OF ce groupPlurals_distinct [OF gp] np mg _ _ nl]) simp_all
    with Nil show ?thesis by simp
  next
    case (Cons k ks)
    with st have pk: "parsePluralKey K = None" by simp
    from vg Cons obtain w where w: "map_of g k = Some w"
      and vw: "valueAt w ks = Some (JObject gL)"
      by (auto split: option.splits)
    from fg Cons w have fw: "freePath (Suc 0) w ks" and nk: "k \<noteq> ''__proto__''" by simp_all
    from grouped_no_deep_heir [OF gl nh] Cons
    have ng: "\<not> list_ex (heirWithin (Suc (length ks)) K) (map fst gL)" by simp
    have "freePath (Suc 0 + length ks) (JObject gL) [K]"
      using groupPlurals_distinct [OF gl] pk np ng m by simp
    from freePath_append [OF fw vw this] have f2: "freePath (Suc 0) w (ks @ [K])" .
    from valueAt_append [OF vw, of "[K]"] m
    have v2: "valueAt w (ks @ [K]) = Some (JString S)" by simp
    from entries_leaf_path [OF ce groupPlurals_distinct [OF gp] nk w f2 v2 nl] Cons
    show ?thesis by simp
  qed
  with c show ?thesis by auto
qed

lemma familyOf_nonempty:
  "(k, v) \<in> set L \<Longrightarrow> parsePluralKey k = Some (b, f) \<Longrightarrow> familyOf L b \<noteq> []"
  by (induction L) (auto split: option.splits if_splits)

lemma familyOf_heirs: "familyOf M x \<noteq> [] \<longleftrightarrow> list_ex (heirExactly (Suc 0) x) (map fst M)"
proof
  assume "familyOf M x \<noteq> []"
  then obtain f v where "(f, v) \<in> set (familyOf M x)" by (cases "familyOf M x") auto
  from familyOf_member [OF this] obtain k where
    k: "(k, v) \<in> set M" "parsePluralKey k = Some (x, f)" by blast
  from k(1) have "k \<in> set (map fst M)" by (auto simp: rev_image_eqI)
  moreover from k(2) have "heirExactly (Suc 0) x k" by simp
  ultimately show "list_ex (heirExactly (Suc 0) x) (map fst M)" by (auto simp: list_ex_iff)
next
  assume "list_ex (heirExactly (Suc 0) x) (map fst M)"
  then obtain k where k: "k \<in> set (map fst M)" "heirExactly (Suc 0) x k"
    by (auto simp: list_ex_iff)
  from k(2) obtain f where p: "parsePluralKey k = Some (x, f)" by (auto split: option.splits)
  from k(1) obtain v where "(k, v) \<in> set M" by auto
  from familyOf_nonempty [OF this p] show "familyOf M x \<noteq> []" .
qed

lemma heirExactly_suffixed: "heirExactly (Suc n) x k \<Longrightarrow> parsePluralKey k \<noteq> None"
  by (auto split: option.splits)

lemma grouped_heirs:
  assumes "groupPlurals ns L [] = Inr (g, [])"
    and "i = 0 \<longrightarrow> parsePluralKey x \<noteq> None"
  shows "list_ex (heirExactly i x) (map fst g) \<longleftrightarrow> list_ex (heirExactly (Suc i) x) (map fst L)"
proof
  assume "list_ex (heirExactly i x) (map fst g)"
  then obtain k where k: "hasOwn g k" "heirExactly i x k" by (auto simp: list_ex_iff hasOwn_def)
  from k(2) assms(2) have "parsePluralKey k \<noteq> None" by (cases i) (auto split: option.splits)
  with groupPlurals_key_origin [OF assms(1) k(1)] have "familyOf L k \<noteq> []" by simp
  then obtain f v where "(f, v) \<in> set (familyOf L k)" by (cases "familyOf L k") auto
  from familyOf_member [OF this] obtain k' where
    k': "(k', v) \<in> set L" "parsePluralKey k' = Some (k, f)" by blast
  from k'(1) have "k' \<in> set (map fst L)" by (auto simp: rev_image_eqI)
  moreover from k'(2) k(2) have "heirExactly (Suc i) x k'" by simp
  ultimately show "list_ex (heirExactly (Suc i) x) (map fst L)" by (auto simp: list_ex_iff)
next
  assume "list_ex (heirExactly (Suc i) x) (map fst L)"
  then obtain k' where k': "k' \<in> set (map fst L)" "heirExactly (Suc i) x k'"
    by (auto simp: list_ex_iff)
  from k'(2) obtain b f where p: "parsePluralKey k' = Some (b, f)" and h: "heirExactly i x b"
    by (auto split: option.splits)
  from h assms(2) have sb: "parsePluralKey b \<noteq> None" by (cases i) (auto split: option.splits)
  from k'(1) obtain v where "(k', v) \<in> set L" by auto
  from familyOf_nonempty [OF this p] have "familyOf L b \<noteq> []" .
  with groupPlurals_keys [OF assms(1), of b] plural_key_not_method [OF sb] have "hasOwn g b" by simp
  with h show "list_ex (heirExactly i x) (map fst g)" by (auto simp: list_ex_iff hasOwn_def)
qed

lemma regroup_heirs:
  "regroup ns n L M \<Longrightarrow> parsePluralKey x \<noteq> None \<Longrightarrow>
     list_ex (heirExactly (Suc i) x) (map fst M) \<longleftrightarrow> list_ex (heirExactly (Suc i + n) x) (map fst L)"
proof (induction n arbitrary: L i)
  case 0
  then show ?case by simp
next
  case (Suc n)
  from Suc.prems(1) obtain g where gp: "groupPlurals ns L [] = Inr (g, [])"
    and rg: "regroup ns n g M"
    by (auto split: sum.splits)
  from Suc.IH [OF rg Suc.prems(2), of i]
  have "list_ex (heirExactly (Suc i) x) (map fst M) \<longleftrightarrow> list_ex (heirExactly (Suc i + n) x) (map fst g)" .
  also have "\<dots> \<longleftrightarrow> list_ex (heirExactly (Suc (Suc i + n)) x) (map fst L)"
    by (rule grouped_heirs [OF gp]) simp
  finally show ?case by (simp del: heirExactly.simps)
qed

lemma level_suffixed_keys:
  assumes run: "convertTranslations ns t [] = Inr (out, [])"
    and path: "freePath (Suc 0) (JObject t) path"
    and lvl: "valueAt (JObject t) path = Some (JObject L)"
  shows "\<exists>outL. valueAt (JObject out) path = Some (JObject outL) \<and> distinct (map fst outL)
           \<and> (\<forall>x. parsePluralKey x \<noteq> None \<longrightarrow>
                 (hasOwn outL x \<longleftrightarrow> list_ex (heirExactly (Suc (length path)) x) (map fst L)))"
proof -
  from converted_level [OF run path lvl] obtain M outL where
    rg: "regroup ns (length path) L M" and cm: "convertTranslations ns M [] = Inr (outL, [])"
    and vo: "valueAt (JObject out) path = Some (JObject outL)"
    by blast
  have "hasOwn outL x \<longleftrightarrow> list_ex (heirExactly (Suc (length path)) x) (map fst L)"
    if sx: "parsePluralKey x \<noteq> None" for x
  proof -
    from converted_keys [OF cm, of x] sx plural_key_not_method [OF sx]
    have "hasOwn outL x \<longleftrightarrow> familyOf M x \<noteq> []" by simp
    also have "\<dots> \<longleftrightarrow> list_ex (heirExactly (Suc 0) x) (map fst M)"
      by (rule familyOf_heirs)
    also have "\<dots> \<longleftrightarrow> list_ex (heirExactly (Suc 0 + length path) x) (map fst L)"
      by (rule regroup_heirs [OF rg sx])
    finally show ?thesis by simp
  qed
  with vo converted_distinct [OF cm] show ?thesis by blast
qed

lemma family_level:
  assumes run: "convertTranslations ns t [] = Inr (out, [])"
    and path: "freePath (Suc 0) (JObject t) path"
    and lvl: "valueAt (JObject t) path = Some (JObject L)"
    and d: "distinct (map fst L)"
    and st: "path = [] \<or> parsePluralKey K = None"
    and nh: "\<not> list_ex (deepHeir (length path) K) (map fst L)"
    and fam: "familyOf L K \<noteq> []"
    and nm: "K \<notin> set objectPrototypeMethods"
  obtains outL S where
    "valueAt (JObject out) path = Some (JObject outL)"
    "distinct (map fst outL)"
    "createICUPlural ns (familyOf L K) = Inr S"
    "map_of outL K = Some (JString (leafText S))"
    "\<And>x. parsePluralKey x \<noteq> None \<Longrightarrow>
        hasOwn outL x \<longleftrightarrow> list_ex (heirExactly (Suc (length path)) x) (map fst L)"
proof -
  from level_suffixed_keys [OF run path lvl] obtain outL where
    v: "valueAt (JObject out) path = Some (JObject outL)" and dl: "distinct (map fst outL)"
    and ks: "\<forall>x. parsePluralKey x \<noteq> None \<longrightarrow>
                 (hasOwn outL x \<longleftrightarrow> list_ex (heirExactly (Suc (length path)) x) (map fst L))"
    by blast
  from family_output [OF run path lvl d st nh fam nm] obtain S where
    c: "createICUPlural ns (familyOf L K) = Inr S"
    and vk: "valueAt (JObject out) (path @ [K]) = Some (JString (leafText S))"
    by blast
  from valueAt_append [OF v, of "[K]"] vk have "map_of outL K = Some (JString (leafText S))"
    by (auto split: option.splits)
  with v dl c ks show ?thesis by (intro that [of outL S]) simp_all
qed

section \<open>The specification\<close>

text \<open>
  The statements of the specification, each against the definitions above.  A run that
  returns \<open>Inr (out, [])\<close> from the state \<open>[]\<close> is a run that ends without an error and
  leaves \<^verbatim>\<open>Object.prototype\<close> as a fresh process has it.
\<close>

subsection \<open>Nesting references inside plural branches\<close>

text \<open>
  C1, as stated, fails: the level \<^verbatim>\<open>{"k_one": "$t(a)"}\<close> converts to a plural expression in
  which the reference has been rewritten to \<^verbatim>\<open>[REF:a]\<close>.  The rewriting works on the expression
  as a whole: a \<^verbatim>\<open>$t(\<close> that one branch text leaves open is closed by the \<^verbatim>\<open>)\<close> of a later
  branch text.
\<close>

theorem plural_branch_reference_counterexample:
  "convertTranslations decimal [(''k_one'', JString ''$t(a)'')] [] =
     Inr ([(''k'', JString ''{count, plural, one{[REF:a]}}'')], [])
   \<and> convertTranslations decimal
         [(''k_one'', JString ''$t(a''), (''k_other'', JString ''b)'')] [] =
       Inr ([(''k'', JString ''{count, plural, one{[REF:a} other{b]}}'')], [])"
  by (simp add: conv_defs)

text \<open>
  C1, amended.  Take a level of the tree that the converter carries into the output: the top
  level, or a nested level at depth \<open>d\<close> reached along a free path (\<open>freePath\<close>); its keys
  are unique.  Let \<open>K\<close> be the base key of a family of that level whose members all hold
  strings, \<open>K\<close> not the name of a method of \<^verbatim>\<open>Object.prototype\<close>; at a nested level, \<open>K\<close> is
  not plural-suffixed itself and no key of the level is \<open>K\<close> followed by between two and
  \<open>d + 1\<close> plural suffixes (\<open>deepHeir\<close>).  The run returns and leaves \<^verbatim>\<open>Object.prototype\<close>
  as a fresh process has it.  While the family is compiled, the branch text of each form receives
  interpolation rewriting only (\<open>branch\<close>).  The compiled expression then passes as a whole
  through the leaf rewriting of its level, interpolation rewriting followed by
  nesting-reference rewriting, and the result is the value under \<open>K\<close> in the output.  Where
  the compiled expression holds no placeholder (the second interpolation rewriting finds
  nothing to rewrite) and no branch text, after its interpolation rewriting, holds a
  \<^verbatim>\<open>$t(\<close> that is not closed within the text, that value is the plural expression in which
  every branch text has had interpolation rewriting and then nesting-reference rewriting,
  as a plain leaf has; and nesting-reference rewriting replaces a reference \<^verbatim>\<open>$t(key)\<close> by
  \<^verbatim>\<open>[REF:key]\<close>.
\<close>

theorem plural_branch_reference_rewritten:
  assumes "convertTranslations ns t [] = Inr (out, [])"
    and "freePath (Suc 0) (JObject t) path"
    and "valueAt (JObject t) path = Some (JObject L)"
    and "distinct (map fst L)"
    and "path = [] \<or> parsePluralKey K = None"
    and "\<not> list_ex (deepHeir (length path) K) (map fst L)"
    and "familyOf L K \<noteq> []"
    and "list_all (\<lambda>fv. isString (snd fv)) (familyOf L K)"
    and "K \<notin> set objectPrototypeMethods"
  shows "\<exists>outL. valueAt (JObject out) path = Some (JObject outL)
       \<and> createICUPlural ns (familyOf L K) =
           Inr (''{count, plural, '' @ joinWith '' '' (map branch (familyOf L K)) @ ''}'')
       \<and> map_of outL K =
           Some (JString (convertNesting (convertInterpolation
             (''{count, plural, '' @ joinWith '' '' (map branch (familyOf L K)) @ ''}''))))
       \<and> (\<not> hasPlaceholder (''{count, plural, '' @ joinWith '' '' (map branch (familyOf L K)) @ ''}'')
           \<and> list_all (\<lambda>fv. \<not> unclosed (convertInterpolation (textOf (snd fv)))) (familyOf L K)
           \<longrightarrow>
           map_of outL K =
             Some (JString (''{count, plural, '' @
               joinWith '' ''
                 (map (\<lambda>fv. icuForm (fst fv) @ ''{''
                         @ convertNesting (convertInterpolation (textOf (snd fv))) @ ''}'')
                    (familyOf L K))
               @ ''}'')))
       \<and> (\<forall>s key rest. spec_reference s key rest \<longrightarrow>
             convertNesting s = ''[REF:'' @ key @ '']'' @ convertNesting rest)"
proof (rule family_level [OF assms(1,2,3,4,5,6,7,9)], goal_cases)
  case (1 outL S)
  let ?S = "''{count, plural, '' @ joinWith '' '' (map branch (familyOf L K)) @ ''}''"
  note c = createICUPlural_strings [OF assms(8), of ns]
  from 1(3,4) c have m: "map_of outL K = Some (JString (leafText ?S))"
    by simp
  then have m': "map_of outL K = Some (JString (convertNesting (convertInterpolation ?S)))"
    by (simp only: leafText_def)
  have r: "map_of outL K =
             Some (JString (''{count, plural, '' @
               joinWith '' ''
                 (map (\<lambda>fv. icuForm (fst fv) @ ''{''
                         @ convertNesting (convertInterpolation (textOf (snd fv))) @ ''}'')
                    (familyOf L K))
               @ ''}''))"
    if h: "\<not> hasPlaceholder ?S
           \<and> list_all (\<lambda>fv. \<not> unclosed (convertInterpolation (textOf (snd fv)))) (familyOf L K)"
  proof -
    have "\<forall>fv \<in> set (familyOf L K). fst fv \<in> set pluralForms
            \<and> \<not> unclosed (convertInterpolation (textOf (snd fv)))"
    proof
      fix fv
      assume mem: "fv \<in> set (familyOf L K)"
      then have "(fst fv, snd fv) \<in> set (familyOf L K)" by simp
      from familyOf_forms [OF this] mem h
      show "fst fv \<in> set pluralForms \<and> \<not> unclosed (convertInterpolation (textOf (snd fv)))"
        by (simp add: list_all_iff)
    qed
    from leafText_family [OF conjunct1 [OF h] this] m show ?thesis by (simp only:)
  qed
  have n: "\<forall>s key rest. spec_reference s key rest \<longrightarrow>
             convertNesting s = ''[REF:'' @ key @ '']'' @ convertNesting rest"
    using convertNesting_reference by blast
  from 1(1) c m' r n show ?case by blast
qed

theorem plural_branch_reference_rewritten_witness:
  "convertTranslations decimal
     [(''u'', JObject [(''k_one'', JString ''{{count}} item, see $t(a.b)''),
                       (''k_other'', JString ''$t(c) and $t(d)'')])] [] =
     Inr ([(''u'', JObject
             [(''k'', JString
                 ''{count, plural, one{{count} item, see [REF:a.b]} other{[REF:c] and [REF:d]}}'')])],
          [])
   \<and> freePath (Suc 0) (JObject
         [(''u'', JObject [(''k_one'', JString ''{{count}} item, see $t(a.b)'' :: nat json),
                           (''k_other'', JString ''$t(c) and $t(d)'')])]) [''u'']
   \<and> distinct [''k_one'', ''k_other'']
   \<and> parsePluralKey ''k'' = None
   \<and> \<not> list_ex (deepHeir (Suc 0) ''k'') [''k_one'', ''k_other'']
   \<and> familyOf [(''k_one'', JString ''{{count}} item, see $t(a.b)'' :: nat json),
                (''k_other'', JString ''$t(c) and $t(d)'')] ''k'' =
       [(''one'', JString ''{{count}} item, see $t(a.b)''), (''other'', JString ''$t(c) and $t(d)'')]
   \<and> ''k'' \<notin> set objectPrototypeMethods
   \<and> createICUPlural decimal
         [(''one'', JString ''{{count}} item, see $t(a.b)''), (''other'', JString ''$t(c) and $t(d)'')] =
       Inr ''{count, plural, one{{count} item, see $t(a.b)} other{$t(c) and $t(d)}}''
   \<and> \<not> hasPlaceholder ''{count, plural, one{{count} item, see $t(a.b)} other{$t(c) and $t(d)}}''
   \<and> \<not> unclosed ''{count} item, see $t(a.b)'' \<and> \<not> unclosed ''$t(c) and $t(d)''
   \<and> (\<exists>outL. valueAt (JObject
          [(''u'', JObject
             [(''k'', JString
                 ''{count, plural, one{{count} item, see [REF:a.b]} other{[REF:c] and [REF:d]}}''
                 :: nat json)])]) [''u''] = Some (JObject outL)
        \<and> map_of outL ''k'' =
            Some (JString (''{count, plural, '' @
               joinWith '' ''
                 (map (\<lambda>fv. icuForm (fst fv) @ ''{''
                         @ convertNesting (convertInterpolation (textOf (snd fv))) @ ''}'')
                    [(''one'', JString ''{{count}} item, see $t(a.b)'' :: nat json),
                     (''other'', JString ''$t(c) and $t(d)'')])
               @ ''}'')))"
proof -
  let ?L = "[(''k_one'', JString ''{{count}} item, see $t(a.b)'' :: nat json),
             (''k_other'', JString ''$t(c) and $t(d)'')]"
  let ?t = "[(''u'', JObject ?L)]"
  let ?out = "[(''u'', JObject
                [(''k'', JString
                    ''{count, plural, one{{count} item, see [REF:a.b]} other{[REF:c] and [REF:d]}}''
                    :: nat json)])]"
  let ?fam = "[(''one'', JString ''{{count}} item, see $t(a.b)'' :: nat json),
               (''other'', JString ''$t(c) and $t(d)'')]"
  let ?S = "''{count, plural, one{{count} item, see $t(a.b)} other{$t(c) and $t(d)}}''"
  have h1: "convertTranslations decimal ?t [] = Inr (?out, [])" by (simp add: conv_defs)
  have h2: "freePath (Suc 0) (JObject ?t) [''u'']" by (simp add: conv_defs)
  have h3: "valueAt (JObject ?t) [''u''] = Some (JObject ?L)" by simp
  have h4: "distinct (map fst ?L)" by simp
  have pk: "parsePluralKey ''k'' = None" by (simp add: conv_defs)
  then have h5: "[''u''] = [] \<or> parsePluralKey ''k'' = None" by simp
  have dh: "\<not> list_ex (deepHeir (Suc 0) ''k'') [''k_one'', ''k_other'']"
    by (simp add: deepHeir_def conv_defs)
  then have h5': "\<not> list_ex (deepHeir (length [''u'']) ''k'') (map fst ?L)" by simp
  have fam: "familyOf ?L ''k'' = ?fam" by (simp add: conv_defs)
  have h6: "familyOf ?L ''k'' \<noteq> []" unfolding fam by simp
  have h7: "list_all (\<lambda>fv. isString (snd fv)) (familyOf ?L ''k'')"
    unfolding fam by (simp add: isString_def)
  have h8: "''k'' \<notin> set objectPrototypeMethods" by (simp add: objectPrototypeMethods_def)
  have cr: "createICUPlural decimal ?fam = Inr ?S" by (simp add: conv_defs)
  have np: "\<not> hasPlaceholder ?S" by (simp add: matchInterpolation_def)
  have u1: "\<not> unclosed ''{count} item, see $t(a.b)''" by simp
  have u2: "\<not> unclosed ''$t(c) and $t(d)''" by simp
  have br: "''{count, plural, '' @ joinWith '' '' (map branch ?fam) @ ''}'' = ?S"
    by (simp add: branch_def textOf_def icuForm_def formMapping_def matchInterpolation_def)
  have ci: "convertInterpolation ''{{count}} item, see $t(a.b)'' = ''{count} item, see $t(a.b)''"
    "convertInterpolation ''$t(c) and $t(d)'' = ''$t(c) and $t(d)''"
    by (simp_all add: matchInterpolation_def)
  have cl: "\<not> hasPlaceholder (''{count, plural, '' @ joinWith '' '' (map branch ?fam) @ ''}'')
            \<and> list_all (\<lambda>fv. \<not> unclosed (convertInterpolation (textOf (snd fv)))) ?fam"
    unfolding br using np u1 u2 by (simp add: textOf_def ci del: convertInterpolation.simps unclosed.simps hasPlaceholder.simps)
  from plural_branch_reference_rewritten [OF h1 h2 h3 h4 h5 h5' h6 h7 h8, unfolded fam]
  obtain outL where v: "valueAt (JObject ?out) [''u''] = Some (JObject outL)"
    and r: "\<not> hasPlaceholder (''{count, plural, '' @ joinWith '' '' (map branch ?fam) @ ''}'')
            \<and> list_all (\<lambda>fv. \<not> unclosed (convertInterpolation (textOf (snd fv)))) ?fam
            \<longrightarrow> map_of outL ''k'' =
            Some (JString (''{count, plural, '' @
               joinWith '' ''
                 (map (\<lambda>fv. icuForm (fst fv) @ ''{''
                         @ convertNesting (convertInterpolation (textOf (snd fv))) @ ''}'') ?fam)
               @ ''}''))"
    by (elim exE conjE)
  from r cl have m: "map_of outL ''k'' =
            Some (JString (''{count, plural, '' @
               joinWith '' ''
                 (map (\<lambda>fv. icuForm (fst fv) @ ''{''
                         @ convertNesting (convertInterpolation (textOf (snd fv))) @ ''}'') ?fam)
               @ ''}''))"
    by (rule mp)
  have ex: "\<exists>outL. valueAt (JObject ?out) [''u''] = Some (JObject outL)
        \<and> map_of outL ''k'' =
            Some (JString (''{count, plural, '' @
               joinWith '' ''
                 (map (\<lambda>fv. icuForm (fst fv) @ ''{''
                         @ convertNesting (convertInterpolation (textOf (snd fv))) @ ''}'') ?fam)
               @ ''}''))"
    by (intro exI [of _ outL] conjI) (rule v, rule m)
  show ?thesis
    by (intro conjI)
       (rule h1, rule h2, use h4 in simp, rule pk, rule dh, rule fam, rule h8, rule cr, rule np,
        rule u1, rule u2, rule ex)
qed

subsection \<open>Plural families are compiled\<close>




subsection \<open>The compiled expression\<close>



subsection \<open>Interpolation rewriting\<close>

text \<open>
  C4.  Interpolation rewriting scans the string from the left.  Where the rest of the string
  begins with a placeholder (two opening braces, one or more characters other than a closing
  brace, two closing braces) it emits an opening brace, the content as it stands and a
  closing brace, and goes on behind the placeholder; elsewhere it copies one character.  So
  every placeholder is rewritten and its content copied verbatim, format hints included, and
  the tree with the one leaf \<^verbatim>\<open>Hello {{name}}!\<close> under \<^verbatim>\<open>greeting\<close> converts to the tree with
  \<^verbatim>\<open>Hello {name}!\<close>.
\<close>

theorem convertInterpolation_rewrites_placeholders:
  "(\<forall>content rest. spec_placeholder s content rest \<longrightarrow>
        convertInterpolation s = ''{'' @ content @ ''}'' @ convertInterpolation rest)
   \<and> ((\<nexists>content rest. spec_placeholder (c # cs) content rest) \<longrightarrow>
        convertInterpolation (c # cs) = c # convertInterpolation cs)
   \<and> convertInterpolation [] = []
   \<and> convertInterpolation ''{{var, format}}'' = ''{var, format}''
   \<and> convertInterpolation ''{{a}} and {{b}}'' = ''{a} and {b}''
   \<and> convertTranslations ns [(''greeting'', JString ''Hello {{name}}!'')] [] =
        Inr ([(''greeting'', JString ''Hello {name}!'')], [])"
proof (intro conjI allI impI)
  fix content rest
  assume "spec_placeholder s content rest"
  then show "convertInterpolation s = ''{'' @ content @ ''}'' @ convertInterpolation rest"
    by (rule convertInterpolation_at_placeholder)
next
  assume "\<nexists>content rest. spec_placeholder (c # cs) content rest"
  then show "convertInterpolation (c # cs) = c # convertInterpolation cs"
    by (rule convertInterpolation_no_placeholder)
next
  show "convertInterpolation [] = []" by simp
next
  show "convertInterpolation ''{{var, format}}'' = ''{var, format}''"
    by (simp add: matchInterpolation_def)
next
  show "convertInterpolation ''{{a}} and {{b}}'' = ''{a} and {b}''"
    by (simp add: matchInterpolation_def)
next
  show "convertTranslations ns [(''greeting'', JString ''Hello {{name}}!'')] [] =
          Inr ([(''greeting'', JString ''Hello {name}!'')], [])"
    by (simp add: conv_defs)
qed

theorem convertInterpolation_rewrites_placeholders_witness:
  "spec_placeholder ''{{name}}!'' ''name'' ''!''
   \<and> convertInterpolation ''{{name}}!'' = ''{'' @ ''name'' @ ''}'' @ convertInterpolation ''!''
   \<and> (\<nexists>content rest. spec_placeholder ''o {{name}}!'' content rest)
   \<and> convertInterpolation ''o {{name}}!'' = CHR ''o'' # convertInterpolation '' {{name}}!''"
proof -
  have p: "spec_placeholder ''{{name}}!'' ''name'' ''!''"
    by (simp add: spec_placeholder_def)
  have n: "\<nexists>content rest. spec_placeholder (CHR ''o'' # '' {{name}}!'') content rest"
    by (simp add: spec_placeholder_def)
  from convertInterpolation_rewrites_placeholders
    [of "''{{name}}!''" "CHR ''o''" "'' {{name}}!''" "\<lambda>n::nat. decimal n"]
  show ?thesis using p n by blast
qed

subsection \<open>Trees without plural-suffixed keys\<close>

text \<open>
  C5.  A tree without any plural-suffixed key loses a key: the assignment
  \<^verbatim>\<open>result[key] = value\<close> under the key \<^verbatim>\<open>__proto__\<close> runs the prototype setter of the fresh
  object and creates no property.
\<close>

theorem convert_drops_proto_key:
  "parsePluralKey ''__proto__'' = None
   \<and> convertTranslations ns [(''__proto__'', JString ''x'')] [] = Inr ([], [])"
  by (simp add: conv_defs)

subsection \<open>A plain key and a family of the same name\<close>

text \<open>
  C6.  A level with the plain key \<^verbatim>\<open>constructor\<close> and the plural-suffixed key
  \<^verbatim>\<open>constructor_one\<close> keeps the value of the plain key: \<^verbatim>\<open>pluralGroups["constructor"]\<close> finds
  the method inherited from \<^verbatim>\<open>Object.prototype\<close>, no family is recorded, and nothing
  overwrites the plain key.
\<close>

theorem convert_keeps_plain_key_of_method_name:
  "parsePluralKey ''constructor'' = None
   \<and> parsePluralKey ''constructor_one'' = Some (''constructor'', ''one'')
   \<and> convertTranslations ns
         [(''constructor'', JString ''p''), (''constructor_one'', JString ''x'')] [] =
       Inr ([(''constructor'', JString ''p'')], [])"
  by (simp add: conv_defs)

subsection \<open>Lists\<close>

text \<open>
  C7, as stated, fails.  A list under the plural-suffixed key \<^verbatim>\<open>items_other\<close> is not carried into
  the output, and a list under a key that is the base key of a family is replaced by the
  expression of the family.  A key followed by two plural suffixes does no harm at the top
  level, which is grouped once, and replaces the list one level further down, where the
  level is grouped twice.
\<close>

theorem list_under_plural_key_counterexample:
  "convertTranslations decimal [(''items_other'', JArray [JString ''a'', JString ''b''])] [] =
     Inr ([(''items'', JString ''{count, plural, other{a,b}}'')], [])
   \<and> convertTranslations decimal
         [(''items'', JArray [JString ''a'']), (''items_one'', JString ''x'')] [] =
       Inr ([(''items'', JString ''{count, plural, one{x}}'')], [])
   \<and> convertTranslations decimal
         [(''items'', JArray [JString ''a'']), (''items_one_other'', JString ''x'')] [] =
       Inr ([(''items'', JArray [JString ''a'']),
             (''items_one'', JString ''{count, plural, other{x}}'')], [])
   \<and> convertTranslations decimal
         [(''u'', JObject [(''items'', JArray [JString ''a'']),
                           (''items_one_other'', JString ''x'')])] [] =
       Inr ([(''u'', JObject
               [(''items'', JString ''{count, plural, one{count, plural, other{x}}}'')])], [])"
  by (simp add: conv_defs)

text \<open>
  C7, amended.  Whenever the conversion returns, whatever it finds on \<^verbatim>\<open>Object.prototype\<close> and
  whatever it leaves there, it carries a list into the output unmodified, at the place
  where it stood and with no conversion of the leaves inside it, provided the path to the
  list is free (\<open>freePath\<close>): at every level on the way, the level at depth \<open>d\<close> below the top
  level, the keys are unique, the key taken is neither plural-suffixed nor \<^verbatim>\<open>__proto__\<close>, and
  no key of the level is the key taken followed by between one and \<open>d + 1\<close> plural
  suffixes.
\<close>

theorem lists_carried_unmodified:
  assumes "convertTranslations ns t p = Inr (out, p')"
    and "freePath (Suc 0) (JObject t) path"
    and "valueAt (JObject t) path = Some (JArray xs)"
  shows "valueAt (JObject out) path = Some (JArray xs)"
proof -
  have "\<not> isPlainObject (JArray xs)" by (simp add: isPlainObject_def)
  from converted_leaf_path [OF assms this] show ?thesis by simp
qed

theorem lists_carried_unmodified_witness:
  "convertTranslations decimal
     [(''menu'', JObject [(''tags'', JArray [JString ''{{a}}'', JNumber 2, JArray [JNull]]),
                          (''tags_note'', JString ''n'')]),
      (''menu_one_other'', JString ''y''), (''__proto___one'', JString ''x'')] [] =
   Inr ([(''menu'', JObject [(''tags'', JArray [JString ''{{a}}'', JNumber 2, JArray [JNull]]),
                             (''tags_note'', JString ''n'')]),
         (''menu_one'', JString ''{count, plural, other{y}}'')],
        [(''one'', JString ''x'')])
   \<and> freePath (Suc 0) (JObject
         [(''menu'', JObject [(''tags'', JArray [JString ''{{a}}'', JNumber (2::nat), JArray [JNull]]),
                              (''tags_note'', JString ''n'')]),
          (''menu_one_other'', JString ''y''), (''__proto___one'', JString ''x'')])
       [''menu'', ''tags'']
   \<and> valueAt (JObject
         [(''menu'', JObject [(''tags'', JArray [JString ''{{a}}'', JNumber (2::nat), JArray [JNull]]),
                              (''tags_note'', JString ''n'')]),
          (''menu_one'', JString ''{count, plural, other{y}}'')])
       [''menu'', ''tags''] = Some (JArray [JString ''{{a}}'', JNumber 2, JArray [JNull]])"
proof -
  let ?t = "[(''menu'', JObject [(''tags'', JArray [JString ''{{a}}'', JNumber (2::nat), JArray [JNull]]),
                                 (''tags_note'', JString ''n'')]),
             (''menu_one_other'', JString ''y''), (''__proto___one'', JString ''x'')]"
  let ?out = "[(''menu'', JObject [(''tags'', JArray [JString ''{{a}}'', JNumber (2::nat), JArray [JNull]]),
                                   (''tags_note'', JString ''n'')]),
               (''menu_one'', JString ''{count, plural, other{y}}'')]"
  have h1: "convertTranslations decimal ?t [] = Inr (?out, [(''one'', JString ''x'')])"
    by (simp add: conv_defs)
  have h2: "freePath (Suc 0) (JObject ?t) [''menu'', ''tags'']"
    by (simp add: conv_defs)
  have h3: "valueAt (JObject ?t) [''menu'', ''tags'']
              = Some (JArray [JString ''{{a}}'', JNumber 2, JArray [JNull]])"
    by simp
  note carried = lists_carried_unmodified [OF h1 h2 h3]
  show ?thesis by (intro conjI) (rule h1, rule h2, rule carried)
qed

subsection \<open>Totality\<close>

text \<open>
  C8.  The conversion throws on a well-formed tree: a plural-suffixed key may hold an object,
  the template literal of \<open>createICUPlural\<close> converts that object to a string, and an
  object with an own property \<^verbatim>\<open>toString\<close> has no string conversion.
\<close>

theorem convert_throws_on_object_branch:
  "convertTranslations ns [(''x_one'', JObject [(''toString'', JString ''y'')])] [] = Inl TypeError"
  by (simp add: conv_defs)

subsection \<open>Key order\<close>




subsection \<open>The compiled expression is rewritten once more\<close>

text \<open>
  C10.  Every conversion of a level runs the two loops of the grouping and then the leaf
  pass over the grouped level.  For every family that the first loop has recorded, the
  second loop stores the compiled expression under the base key, and the leaf pass
  rewrites that string like any string of the level: the output under the base key is
  interpolation rewriting, then nesting rewriting, of the compiled expression, in which
  the branch texts had interpolation rewriting once already.  In terms of the input: for
  a family \<open>K\<close> of the top level, or of a nested level at depth \<open>d\<close> reached along a free
  path where \<open>K\<close> is not plural-suffixed itself and no key of the level is \<open>K\<close> followed by
  between two and \<open>d + 1\<close> plural suffixes, the keys of the level being unique, \<open>K\<close> not
  the name of a method of \<^verbatim>\<open>Object.prototype\<close> and the run leaving \<^verbatim>\<open>Object.prototype\<close> as a
  fresh process has it, the output under \<open>K\<close> is the leaf rewriting of the expression
  compiled from the members of the family.  Nesting rewriting replaces a reference at the front of
  a string by \<^verbatim>\<open>[REF:key]\<close> and goes on behind it, and copies one character where there is
  none.  A branch text that is one placeholder \<^verbatim>\<open>{{x}}\<close> is compiled to the branch
  \<^verbatim>\<open>f{{x}}\<close>, which the leaf pass rewrites to \<^verbatim>\<open>f{x}\<close>: \<^verbatim>\<open>{"k_other": "{{n}}"}\<close> is compiled to
  \<^verbatim>\<open>{count, plural, other{{n}}}\<close> and converted to \<^verbatim>\<open>{count, plural, other{n}}\<close>.
\<close>

theorem compiled_family_rewritten_again:
  "(\<forall>t p out p'. convertTranslations ns t p = Inr (out, p') \<longrightarrow>
      (\<exists>r gs p1 g. scanEntries ns t [] [] p = Inr (r, gs, p1) \<and> emitPlurals ns gs r = Inr g
         \<and> convertEntries ns g [] p1 = Inr (out, p')
         \<and> (\<forall>b forms. (b, forms) \<in> set gs \<longrightarrow>
               (\<exists>S. createICUPlural ns forms = Inr S \<and> map_of g b = Some (JString S)
                  \<and> map_of out b = Some (JString (convertNesting (convertInterpolation S)))))))
   \<and> (\<forall>t out path L K.
        convertTranslations ns t [] = Inr (out, []) \<and> freePath (Suc 0) (JObject t) path
        \<and> valueAt (JObject t) path = Some (JObject L) \<and> distinct (map fst L)
        \<and> (path = [] \<or> parsePluralKey K = None)
        \<and> \<not> list_ex (deepHeir (length path) K) (map fst L)
        \<and> familyOf L K \<noteq> [] \<and> K \<notin> set objectPrototypeMethods \<longrightarrow>
        (\<exists>outL S. valueAt (JObject out) path = Some (JObject outL)
           \<and> createICUPlural ns (familyOf L K) = Inr S
           \<and> map_of outL K = Some (JString (convertNesting (convertInterpolation S)))))
   \<and> (\<forall>s key rest. spec_reference s key rest \<longrightarrow>
         convertNesting s = ''[REF:'' @ key @ '']'' @ convertNesting rest)
   \<and> (\<forall>c cs. (\<nexists>key rest. spec_reference (c # cs) key rest) \<longrightarrow>
         convertNesting (c # cs) = c # convertNesting cs)
   \<and> convertNesting [] = []
   \<and> (\<forall>f x. f \<in> set pluralForms \<and> x \<noteq> [] \<and> CHR ''}'' \<notin> set x \<and> CHR ''$'' \<notin> set x \<longrightarrow>
         createICUPlural ns [(f, JString (''{{'' @ x @ ''}}''))] =
           Inr (''{count, plural, '' @ icuForm f @ ''{{'' @ x @ ''}}}'')
         \<and> convertNesting (convertInterpolation
              (''{count, plural, '' @ icuForm f @ ''{{'' @ x @ ''}}}''))
             = ''{count, plural, '' @ icuForm f @ ''{'' @ x @ ''}}'')
   \<and> groupPlurals ns [(''k_other'', JString ''{{n}}'')] [] =
       Inr ([(''k'', JString ''{count, plural, other{{n}}}'')], [])
   \<and> convertTranslations ns [(''k_other'', JString ''{{n}}'')] [] =
       Inr ([(''k'', JString ''{count, plural, other{n}}'')], [])
   \<and> convertTranslations ns [(''k_one'', JString ''$t(a)''), (''k_other'', JString ''{{n}}'')] [] =
       Inr ([(''k'', JString ''{count, plural, one{[REF:a]} other{n}}'')], [])"
proof (intro conjI allI impI)
  fix t p :: "'a json props" and out p'
  assume "convertTranslations ns t p = Inr (out, p')"
  then show "\<exists>r gs p1 g. scanEntries ns t [] [] p = Inr (r, gs, p1) \<and> emitPlurals ns gs r = Inr g
         \<and> convertEntries ns g [] p1 = Inr (out, p')
         \<and> (\<forall>b forms. (b, forms) \<in> set gs \<longrightarrow>
               (\<exists>S. createICUPlural ns forms = Inr S \<and> map_of g b = Some (JString S)
                  \<and> map_of out b = Some (JString (convertNesting (convertInterpolation S)))))"
    by (rule converted_groups)
next
  fix t :: "'a json props" and out path L K
  assume a: "convertTranslations ns t [] = Inr (out, []) \<and> freePath (Suc 0) (JObject t) path
        \<and> valueAt (JObject t) path = Some (JObject L) \<and> distinct (map fst L)
        \<and> (path = [] \<or> parsePluralKey K = None)
        \<and> \<not> list_ex (deepHeir (length path) K) (map fst L)
        \<and> familyOf L K \<noteq> [] \<and> K \<notin> set objectPrototypeMethods"
  then have h: "convertTranslations ns t [] = Inr (out, [])" "freePath (Suc 0) (JObject t) path"
    "valueAt (JObject t) path = Some (JObject L)" "distinct (map fst L)"
    "path = [] \<or> parsePluralKey K = None"
    "\<not> list_ex (deepHeir (length path) K) (map fst L)"
    and f: "familyOf L K \<noteq> []" and k: "K \<notin> set objectPrototypeMethods"
    by simp_all
  show "\<exists>outL S. valueAt (JObject out) path = Some (JObject outL)
           \<and> createICUPlural ns (familyOf L K) = Inr S
           \<and> map_of outL K = Some (JString (convertNesting (convertInterpolation S)))"
  proof (rule family_level [OF h f k], goal_cases)
    case (1 outL S)
    from 1(1,3,4) show ?case by (auto simp: leafText_def)
  qed
next
  fix s key rest
  assume "spec_reference s key rest"
  then show "convertNesting s = ''[REF:'' @ key @ '']'' @ convertNesting rest"
    by (rule convertNesting_reference)
next
  fix c cs
  assume "\<nexists>key rest. spec_reference (c # cs) key rest"
  then show "convertNesting (c # cs) = c # convertNesting cs"
    by (rule convertNesting_no_reference)
next
  show "convertNesting [] = []" by simp
next
  fix f x
  assume "f \<in> set pluralForms \<and> x \<noteq> [] \<and> CHR ''}'' \<notin> set x \<and> CHR ''$'' \<notin> set x"
  then have h: "f \<in> set pluralForms" "x \<noteq> []" "CHR ''}'' \<notin> set x" "CHR ''$'' \<notin> set x"
    by blast+
  show "createICUPlural ns [(f, JString (''{{'' @ x @ ''}}''))] =
           Inr (''{count, plural, '' @ icuForm f @ ''{{'' @ x @ ''}}}'')"
    by (rule single_placeholder_branch(1) [OF h])
  show "convertNesting (convertInterpolation
              (''{count, plural, '' @ icuForm f @ ''{{'' @ x @ ''}}}''))
             = ''{count, plural, '' @ icuForm f @ ''{'' @ x @ ''}}''"
    by (rule single_placeholder_branch(2) [OF h])
next
  show "groupPlurals ns [(''k_other'', JString ''{{n}}'')] [] =
       Inr ([(''k'', JString ''{count, plural, other{{n}}}'')], [])"
    by (simp add: conv_defs)
next
  show "convertTranslations ns [(''k_other'', JString ''{{n}}'')] [] =
       Inr ([(''k'', JString ''{count, plural, other{n}}'')], [])"
    by (simp add: conv_defs)
next
  show "convertTranslations ns [(''k_one'', JString ''$t(a)''), (''k_other'', JString ''{{n}}'')] [] =
       Inr ([(''k'', JString ''{count, plural, one{[REF:a]} other{n}}'')], [])"
    by (simp add: conv_defs)
qed

theorem compiled_family_rewritten_again_witness:
  "convertTranslations decimal
     [(''u'', JObject [(''k_one'', JString ''$t(a)''), (''k_other'', JString ''{{n}}'')])] [] =
     Inr ([(''u'', JObject [(''k'', JString ''{count, plural, one{[REF:a]} other{n}}'')])], [])
   \<and> freePath (Suc 0) (JObject
         [(''u'', JObject [(''k_one'', JString ''$t(a)'' :: nat json),
                           (''k_other'', JString ''{{n}}'')])]) [''u'']
   \<and> distinct [''k_one'', ''k_other'']
   \<and> parsePluralKey ''k'' = None
   \<and> \<not> list_ex (deepHeir (Suc 0) ''k'') [''k_one'', ''k_other'']
   \<and> familyOf [(''k_one'', JString ''$t(a)'' :: nat json), (''k_other'', JString ''{{n}}'')] ''k''
        = [(''one'', JString ''$t(a)''), (''other'', JString ''{{n}}'')]
   \<and> ''k'' \<notin> set objectPrototypeMethods
   \<and> createICUPlural decimal [(''one'', JString ''$t(a)''), (''other'', JString ''{{n}}'')]
        = Inr ''{count, plural, one{$t(a)} other{{n}}}''
   \<and> (\<exists>outL S. valueAt (JObject
          [(''u'', JObject [(''k'', JString ''{count, plural, one{[REF:a]} other{n}}'' :: nat json)])])
          [''u''] = Some (JObject outL)
        \<and> createICUPlural decimal [(''one'', JString ''$t(a)''), (''other'', JString ''{{n}}'')]
            = Inr S
        \<and> map_of outL ''k'' = Some (JString (convertNesting (convertInterpolation S))))
   \<and> spec_reference ''$t(a.b) x'' ''a.b'' '' x''
   \<and> convertNesting ''$t(a.b) x'' = ''[REF:'' @ ''a.b'' @ '']'' @ convertNesting '' x''
   \<and> (\<nexists>key rest. spec_reference ''x $t(a)'' key rest)
   \<and> convertNesting ''x $t(a)'' = CHR ''x'' # convertNesting '' $t(a)''
   \<and> ''other'' \<in> set pluralForms
   \<and> convertNesting (convertInterpolation
        (''{count, plural, '' @ icuForm ''other'' @ ''{{'' @ ''n'' @ ''}}}''))
       = ''{count, plural, '' @ icuForm ''other'' @ ''{'' @ ''n'' @ ''}}''"
proof -
  let ?L = "[(''k_one'', JString ''$t(a)'' :: nat json), (''k_other'', JString ''{{n}}'')]"
  let ?t = "[(''u'', JObject ?L)]"
  let ?out = "[(''u'', JObject [(''k'', JString ''{count, plural, one{[REF:a]} other{n}}'' :: nat json)])]"
  let ?fam = "[(''one'', JString ''$t(a)'' :: nat json), (''other'', JString ''{{n}}'')]"
  note T = compiled_family_rewritten_again [of decimal]
  have h1: "convertTranslations decimal ?t [] = Inr (?out, [])" by (simp add: conv_defs)
  have h2: "freePath (Suc 0) (JObject ?t) [''u'']" by (simp add: conv_defs)
  have h3: "valueAt (JObject ?t) [''u''] = Some (JObject ?L)" by simp
  have h4: "distinct (map fst ?L)" by simp
  have pk: "parsePluralKey ''k'' = None" by (simp add: conv_defs)
  have dh: "\<not> list_ex (deepHeir (Suc 0) ''k'') [''k_one'', ''k_other'']"
    by (simp add: deepHeir_def conv_defs)
  have fam: "familyOf ?L ''k'' = ?fam" by (simp add: conv_defs)
  have h6: "familyOf ?L ''k'' \<noteq> []" unfolding fam by simp
  have h8: "''k'' \<notin> set objectPrototypeMethods" by (simp add: objectPrototypeMethods_def)
  have cr: "createICUPlural decimal ?fam = Inr ''{count, plural, one{$t(a)} other{{n}}}''"
    by (simp add: conv_defs)
  have hyp: "convertTranslations decimal ?t [] = Inr (?out, []) \<and> freePath (Suc 0) (JObject ?t) [''u'']
        \<and> valueAt (JObject ?t) [''u''] = Some (JObject ?L) \<and> distinct (map fst ?L)
        \<and> ([''u''] = [] \<or> parsePluralKey ''k'' = None)
        \<and> \<not> list_ex (deepHeir (length [''u'']) ''k'') (map fst ?L)
        \<and> familyOf ?L ''k'' \<noteq> [] \<and> ''k'' \<notin> set objectPrototypeMethods"
    using h1 h2 h3 h4 pk dh h6 h8 by simp
  from T [THEN conjunct2, THEN conjunct1, rule_format, OF hyp]
  have ex: "\<exists>outL S. valueAt (JObject ?out) [''u''] = Some (JObject outL)
        \<and> createICUPlural decimal ?fam = Inr S
        \<and> map_of outL ''k'' = Some (JString (convertNesting (convertInterpolation S)))"
    unfolding fam .
  have sr: "spec_reference ''$t(a.b) x'' ''a.b'' '' x''" by (simp add: spec_reference_def)
  from T [THEN conjunct2, THEN conjunct2, THEN conjunct1, rule_format, OF sr]
  have r1: "convertNesting ''$t(a.b) x'' = ''[REF:'' @ ''a.b'' @ '']'' @ convertNesting '' x''" .
  have nr: "\<nexists>key rest. spec_reference ''x $t(a)'' key rest" by (simp add: spec_reference_def)
  from T [THEN conjunct2, THEN conjunct2, THEN conjunct2, THEN conjunct1, rule_format,
      of "CHR ''x''" "'' $t(a)''"] nr
  have r2: "convertNesting ''x $t(a)'' = CHR ''x'' # convertNesting '' $t(a)''" by simp
  have fo: "''other'' \<in> set pluralForms" by (simp add: pluralForms_def)
  have hx: "''other'' \<in> set pluralForms \<and> ''n'' \<noteq> [] \<and> CHR ''}'' \<notin> set ''n'' \<and> CHR ''$'' \<notin> set ''n''"
    using fo by simp
  from T [THEN conjunct2, THEN conjunct2, THEN conjunct2, THEN conjunct2, THEN conjunct2,
      THEN conjunct1, rule_format, OF hx]
  have r3: "convertNesting (convertInterpolation
        (''{count, plural, '' @ icuForm ''other'' @ ''{{'' @ ''n'' @ ''}}}''))
       = ''{count, plural, '' @ icuForm ''other'' @ ''{'' @ ''n'' @ ''}}''"
    by (rule conjunct2)
  show ?thesis
    by (intro conjI)
       (rule h1, rule h2, use h4 in simp, rule pk, rule dh, rule fam, rule h8, rule cr, rule ex, rule sr,
        rule r1, rule nr, rule r2, rule fo, rule r3)
qed

section \<open>Further properties\<close>

text \<open>
  Structure preservation.  A tree in which, at every level, the keys are unique and none is
  plural-suffixed, \<^verbatim>\<open>__proto__\<close> or an array index is converted, whatever the state of
  \<^verbatim>\<open>Object.prototype\<close>, without an error and without touching that state, to the same tree
  with every string leaf rewritten: the keys and their order, the nesting and all other
  leaves are those of the input.
\<close>

theorem plain_tree_structure_preserved:
  assumes "plainLevel t"
  shows "convertTranslations ns t p = Inr (rewriteProps t, p)
       \<and> map fst (rewriteProps t) = map fst t"
  using assms conversion_plain_tree(1) [of t ns p] by (simp add: keys_rewriteProps)

theorem plain_tree_structure_preserved_witness:
  "plainLevel [(''a'', JObject [(''b'', JString ''Hi {{x}}''), (''n'', JNumber (5::nat))]),
               (''msg'', JString ''See $t(other.key)''), (''z'', JNull)]
   \<and> convertTranslations decimal
         [(''a'', JObject [(''b'', JString ''Hi {{x}}''), (''n'', JNumber 5)]),
          (''msg'', JString ''See $t(other.key)''), (''z'', JNull)] [] =
       Inr ([(''a'', JObject [(''b'', JString ''Hi {x}''), (''n'', JNumber 5)]),
             (''msg'', JString ''See [REF:other.key]''), (''z'', JNull)], [])"
proof -
  let ?t = "[(''a'', JObject [(''b'', JString ''Hi {{x}}''), (''n'', JNumber (5::nat))]),
             (''msg'', JString ''See $t(other.key)''), (''z'', JNull)]"
  have h: "plainLevel ?t" by (simp add: conv_defs)
  have r: "rewriteProps ?t =
             [(''a'', JObject [(''b'', JString ''Hi {x}''), (''n'', JNumber 5)]),
              (''msg'', JString ''See [REF:other.key]''), (''z'', JNull)]"
    by (simp add: leafText_def matchInterpolation_def matchNesting_def)
  note kept = conjunct1 [OF plain_tree_structure_preserved [OF h, of decimal "[]"], unfolded r]
  show ?thesis by (intro conjI) (rule h, rule kept)
qed

text \<open>
  Overwriting.  Where a level with unique keys has a plain key and plural-suffixed keys with
  that key as their base, and the key is not the name of a method of \<^verbatim>\<open>Object.prototype\<close>,
  the output holds under the key the leaf rewriting of the expression compiled for the
  family, whatever the plain key held.
\<close>

theorem family_overwrites_plain_key:
  assumes "convertTranslations ns t [] = Inr (out, [])"
    and "distinct (map fst t)"
    and "(foo, v) \<in> set t" and "parsePluralKey foo = None"
    and "familyOf t foo \<noteq> []"
    and "foo \<notin> set objectPrototypeMethods"
  shows "\<exists>s. createICUPlural ns (familyOf t foo) = Inr s
           \<and> map_of out foo = Some (JString (leafText s))"
  using converted_family [OF assms(1,6,5)]
  by (simp add: forms_of_distinct_level [OF assms(2)] leafText_def)

theorem family_overwrites_plain_key_witness:
  "convertTranslations decimal
     [(''foo'', JString ''plain''), (''foo_one'', JString ''x''), (''foo_other'', JString ''y'')] [] =
   Inr ([(''foo'', JString ''{count, plural, one{x} other{y}}'')], [])
   \<and> distinct (map fst [(''foo'', JString ''plain'' :: nat json), (''foo_one'', JString ''x''),
                          (''foo_other'', JString ''y'')])
   \<and> parsePluralKey ''foo'' = None
   \<and> familyOf [(''foo'', JString ''plain'' :: nat json), (''foo_one'', JString ''x''),
                (''foo_other'', JString ''y'')] ''foo'' \<noteq> []
   \<and> ''foo'' \<notin> set objectPrototypeMethods
   \<and> (\<exists>s. createICUPlural decimal
              (familyOf [(''foo'', JString ''plain''), (''foo_one'', JString ''x''),
                         (''foo_other'', JString ''y'')] ''foo'') = Inr s
          \<and> map_of [(''foo'', JString ''{count, plural, one{x} other{y}}'' :: nat json)] ''foo'' =
              Some (JString (leafText s)))"
proof -
  let ?t = "[(''foo'', JString ''plain'' :: nat json), (''foo_one'', JString ''x''),
             (''foo_other'', JString ''y'')]"
  let ?out = "[(''foo'', JString ''{count, plural, one{x} other{y}}'' :: nat json)]"
  have h1: "convertTranslations decimal ?t [] = Inr (?out, [])" by (simp add: conv_defs)
  have h2: "distinct (map fst ?t)" by simp
  have h3: "(''foo'', JString ''plain'') \<in> set ?t" by simp
  have h4: "parsePluralKey ''foo'' = None" by (simp add: conv_defs)
  have h5: "familyOf ?t ''foo'' \<noteq> []" by (simp add: conv_defs)
  have h6: "''foo'' \<notin> set objectPrototypeMethods" by (simp add: objectPrototypeMethods_def)
  note over = family_overwrites_plain_key [OF h1 h2 h3 h4 h5 h6]
  show ?thesis
    by (intro conjI) (rule h1, rule h2, rule h4, rule h5, rule h6, rule over)
qed

text \<open>
  Prototype pollution.  A plural-suffixed key with the base key \<^verbatim>\<open>__proto__\<close> stores its value
  on \<^verbatim>\<open>Object.prototype\<close>, where it stays; a later plural-suffixed key whose base key is the
  name so created finds a primitive and the assignment throws.
\<close>

theorem proto_base_key_pollutes:
  "convertTranslations ns [(''__proto___one'', JString ''x'')] [] =
     Inr ([], [(''one'', JString ''x'')])
   \<and> convertTranslations ns
         [(''__proto___one'', JString ''x''), (''one_other'', JString ''y'')] [] = Inl TypeError
   \<and> convertTranslations ns [(''one_other'', JString ''y'')] [(''one'', JString ''x'')] =
       Inl TypeError"
  by (simp add: conv_defs)

text \<open>
  The plural key pattern.  A key is a member of a plural family exactly if it is a
  non-empty base key without line terminators, an underscore, and one of the six forms;
  base key and form are then determined by the key.
\<close>

theorem plural_key_pattern:
  "(parsePluralKey key = Some (b, f) \<longleftrightarrow>
      key = b @ ''_'' @ f \<and> f \<in> set pluralForms \<and> b \<noteq> [] \<and> \<not> list_ex lineTerminator b)
   \<and> pluralForms = [''zero'', ''one'', ''two'', ''few'', ''many'', ''other'']"
  by (simp only: parsePluralKey_iff pluralForms_def)

text \<open>
  Strings without placeholders.  Interpolation rewriting leaves a string as it is when two
  opening braces nowhere follow each other in it, as in a string that has been converted
  already.
\<close>

theorem interpolation_without_double_brace:
  assumes "\<not> sublist ''{{'' s"
  shows "convertInterpolation s = s"
  using assms by (rule convertInterpolation_unchanged)

theorem interpolation_without_double_brace_witness:
  "\<not> sublist ''{{'' ''Hello {name}!'' \<and> convertInterpolation ''Hello {name}!'' = ''Hello {name}!''"
proof -
  have h: "\<not> sublist ''{{'' ''Hello {name}!''"
    by (simp add: sublist_Cons_right prefix_Cons)
  from interpolation_without_double_brace [OF h] h show ?thesis by simp
qed

text \<open>
  A second pass of interpolation rewriting over the result of the first rewrites again
  where the content of a placeholder began with an opening brace.
\<close>

theorem interpolation_second_pass:
  "convertInterpolation ''{{{a}}}'' = ''{{a}}''
   \<and> convertInterpolation (convertInterpolation ''{{{a}}}'') = ''{a}''"
  by (simp add: matchInterpolation_def)

text \<open>
  Further literal scenarios of the specification: a nested leaf, a nesting reference, and
  values that are not strings.
\<close>

theorem literal_scenarios:
  "convertTranslations ns [(''a'', JObject [(''b'', JString ''Hi {{x}}'')])] [] =
     Inr ([(''a'', JObject [(''b'', JString ''Hi {x}'')])], [])
   \<and> convertTranslations ns [(''msg'', JString ''See $t(other.key)'')] [] =
       Inr ([(''msg'', JString ''See [REF:other.key]'')], [])
   \<and> convertTranslations ns [(''n'', JNumber five), (''b'', JBool True), (''z'', JNull)] [] =
       Inr ([(''n'', JNumber five), (''b'', JBool True), (''z'', JNull)], [])
   \<and> convertTranslations ns
         [(''welcome'', JString ''Welcome {{user}}''), (''item_zero'', JString ''No items''),
          (''item_one'', JString ''{{count}} item''), (''item_other'', JString ''{{count}} items''),
          (''goodbye'', JString ''Goodbye {{user}}'')] [] =
       Inr ([(''welcome'', JString ''Welcome {user}''), (''goodbye'', JString ''Goodbye {user}''),
             (''item'', JString ''{count, plural, =0{No items} one{{count} item} other{{count} items}}'')],
            [])
   \<and> convertTranslations ns
         [(''n_one'', JString ''top''), (''user'', JObject [(''n_other'', JString ''inner'')])] [] =
       Inr ([(''user'', JObject [(''n'', JString ''{count, plural, other{inner}}'')]),
             (''n'', JString ''{count, plural, one{top}}'')], [])"
  by (simp add: conv_defs)

end
